theory Spec2Isabelle
  imports Complex_Main "HOL-Library.Word" "HOL-Library.Monad_Syntax"
begin

section \<open>Data model\<close>

text \<open>
  The records of \<^verbatim>\<open>types.ts\<close>.  JavaScript numbers that hold pixel counts and
  array indices are integers (\<open>int\<close>); crop coordinates and viewport sizes, which the
  code divides and scales, are idealised as \<open>real\<close>.  An \<open>ImageFile\<close> carries, in place of
  its \<^verbatim>\<open>url\<close>, the RGBA8 buffer that \<^verbatim>\<open>getImageData\<close> decodes from it.
\<close>

type_synonym u8 = "8 word"

record ImageFile =
  img_id :: string
  img_name :: string
  img_width :: int
  img_height :: int
  img_data :: "u8 list"

record CropRect =
  crop_id :: string
  crop_x :: real
  crop_y :: real
  crop_width :: real
  crop_height :: real

section \<open>Colour matching\<close>

text \<open>
  \<^verbatim>\<open>hexToRgb\<close> matches \<^verbatim>\<open>/^#?([a-f\d]{2})([a-f\d]{2})([a-f\d]{2})$/i\<close>: an optional
  \<open>#\<close>, then exactly six hexadecimal digits in either case, and nothing else.
\<close>

record RGB =
  rgb_r :: int
  rgb_g :: int
  rgb_b :: int

definition isHexDigit :: "char \<Rightarrow> bool" where
  "isHexDigit c \<longleftrightarrow> c \<in> set ''0123456789abcdefABCDEF''"

definition hexDigitVal :: "char \<Rightarrow> int" where
  "hexDigitVal c =
     (if c \<in> set ''0123456789'' then of_char c - 48
      else if c \<in> set ''abcdef'' then of_char c - 87
      else of_char c - 55)"

definition parseInt16 :: "char \<Rightarrow> char \<Rightarrow> int" where
  "parseInt16 a b = 16 * hexDigitVal a + hexDigitVal b"

definition stripHash :: "string \<Rightarrow> string" where
  "stripHash hex = (case hex of c # rest \<Rightarrow> if c = CHR ''#'' then rest else hex | [] \<Rightarrow> hex)"

definition hexToRgb :: "string \<Rightarrow> RGB option" where
  "hexToRgb hex =
     (case stripHash hex of
        [r1, r2, g1, g2, b1, b2] \<Rightarrow>
          if list_all isHexDigit [r1, r2, g1, g2, b1, b2]
          then Some \<lparr> rgb_r = parseInt16 r1 r2, rgb_g = parseInt16 g1 g2, rgb_b = parseInt16 b1 b2 \<rparr>
          else None
      | _ \<Rightarrow> None)"

text \<open>
  \<^verbatim>\<open>colorDistance\<close> is \<^verbatim>\<open>Math.sqrt\<close> of a sum of three squares.  Its arguments
  are bytes and parsed colour channels, so the sum is an integer below \<open>2^18\<close>, exact in
  a double.  \<open>colorDistance\<close> is the square root as a real number; the code has the
  double nearest to it.  Detection and Pass 1 of the removal only compare it with the
  bounds 35 and 20, where the rounding changes nothing (\<open>colorDistance_rounding\<close> below);
  Pass 2 of the removal computes with it, and there the rounding is written out.
\<close>

definition colorDistance :: "int \<Rightarrow> int \<Rightarrow> int \<Rightarrow> int \<Rightarrow> int \<Rightarrow> int \<Rightarrow> real" where
  "colorDistance r1 g1 b1 r2 g2 b2 =
     sqrt (real_of_int ((r1 - r2)\<^sup>2 + (g1 - g2)\<^sup>2 + (b1 - b2)\<^sup>2))"

text \<open>
  Reading a typed array: a byte inside the buffer, \<^verbatim>\<open>undefined\<close> outside it (\<open>None\<close>).
  A comparison with \<^verbatim>\<open>undefined\<close>, or with the NaN computed from it, is false.
\<close>

definition rd :: "u8 list \<Rightarrow> int \<Rightarrow> int option" where
  "rd data i = (if 0 \<le> i \<and> nat i < length data then Some (uint (data ! nat i)) else None)"

section \<open>Background classification\<close>

datatype Mode = Transparent | Color

record DetectOptions =
  opt_mode :: Mode
  opt_color :: string

definition bgColorRgb :: "DetectOptions \<Rightarrow> RGB option" where
  "bgColorRgb options = (if opt_mode options = Color then hexToRgb (opt_color options) else None)"

definition COLOR_THRESHOLD :: real where "COLOR_THRESHOLD = 35"
definition ALPHA_THRESHOLD :: int where "ALPHA_THRESHOLD = 10"

definition isBackground :: "u8 list \<Rightarrow> DetectOptions \<Rightarrow> int \<Rightarrow> bool" where
  "isBackground data options index =
     (if opt_mode options = Transparent
      then (case rd data (index + 3) of Some a \<Rightarrow> a < ALPHA_THRESHOLD | None \<Rightarrow> False)
      else (case bgColorRgb options of
              Some bg \<Rightarrow>
                (case (rd data index, rd data (index + 1), rd data (index + 2)) of
                   (Some r, Some g, Some b) \<Rightarrow>
                     colorDistance r g b (rgb_r bg) (rgb_g bg) (rgb_b bg) < COLOR_THRESHOLD
                 | _ \<Rightarrow> False)
            | None \<Rightarrow> False))"

lemma colorDistance_less_iff:
  assumes "0 \<le> t"
  shows "colorDistance r1 g1 b1 r2 g2 b2 < real_of_int t \<longleftrightarrow>
         (r1 - r2)\<^sup>2 + (g1 - g2)\<^sup>2 + (b1 - b2)\<^sup>2 < t\<^sup>2"
proof -
  let ?n = "(r1 - r2)\<^sup>2 + (g1 - g2)\<^sup>2 + (b1 - b2)\<^sup>2"
  have "real_of_int t = sqrt (real_of_int (t\<^sup>2))"
    using assms by (simp add: real_sqrt_abs)
  then have "colorDistance r1 g1 b1 r2 g2 b2 < real_of_int t \<longleftrightarrow>
      sqrt (real_of_int ?n) < sqrt (real_of_int (t\<^sup>2))"
    by (simp add: colorDistance_def)
  also have "\<dots> \<longleftrightarrow> real_of_int ?n < real_of_int (t\<^sup>2)"
    by (rule real_sqrt_less_iff)
  also have "\<dots> \<longleftrightarrow> ?n < t\<^sup>2"
    by (rule of_int_less_iff)
  finally show ?thesis .
qed

lemma sqrt_less_35: "sqrt x < 35 \<longleftrightarrow> x < 1225"
proof -
  have "sqrt 1225 = 35" by (rule real_sqrt_unique) simp_all
  then show ?thesis using real_sqrt_less_iff [of x 1225] by simp
qed

lemma colorDistance_less_35:
  "colorDistance r1 g1 b1 r2 g2 b2 < COLOR_THRESHOLD \<longleftrightarrow>
     (r1 - r2)\<^sup>2 + (g1 - g2)\<^sup>2 + (b1 - b2)\<^sup>2 < 1225"
  using colorDistance_less_iff [of 35 r1 g1 b1 r2 g2 b2] by (simp add: COLOR_THRESHOLD_def)

text \<open>The four channels of the pixel that starts at \<open>index\<close>, when the buffer holds them.\<close>

definition pixelAt :: "u8 list \<Rightarrow> int \<Rightarrow> (int \<times> int \<times> int \<times> int) option" where
  "pixelAt data index =
     (case (rd data index, rd data (index + 1), rd data (index + 2), rd data (index + 3)) of
        (Some r, Some g, Some b, Some a) \<Rightarrow> Some (r, g, b, a)
      | _ \<Rightarrow> None)"

text \<open>
  Claim C5.  For a pixel \<open>(r, g, b, a)\<close> of the buffer, \<open>isBackground\<close> depends on the
  pixel and the options only: in transparent mode it holds iff \<open>a < 10\<close>; in colour mode
  with a parsed colour it holds iff the Euclidean distance from \<open>(r, g, b)\<close> to the colour
  is below 35 (the sum of squares is below 1225), whatever the alpha is.
\<close>

theorem isBackground_policy:
  assumes "pixelAt data index = Some (r, g, b, a)"
  shows "(opt_mode options = Transparent \<longrightarrow> isBackground data options index = (a < 10)) \<and>
         (opt_mode options = Color \<and> hexToRgb (opt_color options) = Some bg \<longrightarrow>
            isBackground data options index =
              (sqrt (real_of_int ((r - rgb_r bg)\<^sup>2 + (g - rgb_g bg)\<^sup>2 + (b - rgb_b bg)\<^sup>2)) < 35) \<and>
            isBackground data options index =
              ((r - rgb_r bg)\<^sup>2 + (g - rgb_g bg)\<^sup>2 + (b - rgb_b bg)\<^sup>2 < 1225) \<and>
            (\<forall>data' index' a'. pixelAt data' index' = Some (r, g, b, a') \<longrightarrow>
               isBackground data' options index' = isBackground data options index)) \<and>
         (\<forall>data' index'. pixelAt data' index' = Some (r, g, b, a) \<longrightarrow>
            isBackground data' options index' = isBackground data options index)"
proof -
  have rds: "rd d i = Some r' \<and> rd d (i + 1) = Some g' \<and> rd d (i + 2) = Some b' \<and> rd d (i + 3) = Some a'"
    if "pixelAt d i = Some (r', g', b', a')" for d i r' g' b' a'
    using that by (auto simp: pixelAt_def split: option.splits)
  note here = rds [OF assms]
  have tr: "isBackground d options i = (a' < 10)"
    if "opt_mode options = Transparent" "pixelAt d i = Some (r', g', b', a')" for d i r' g' b' a'
    using that(1) rds [OF that(2)] by (simp add: isBackground_def ALPHA_THRESHOLD_def)
  have co: "isBackground d options i =
      (colorDistance r' g' b' (rgb_r c) (rgb_g c) (rgb_b c) < COLOR_THRESHOLD)"
    if "opt_mode options = Color" "hexToRgb (opt_color options) = Some c"
      "pixelAt d i = Some (r', g', b', a')" for d i r' g' b' a' c
    using that(1,2) rds [OF that(3)] by (simp add: isBackground_def bgColorRgb_def)
  have un: "isBackground d options i = False"
    if "opt_mode options = Color" "hexToRgb (opt_color options) = None" for d i
    using that by (simp add: isBackground_def bgColorRgb_def)
  have c1: "opt_mode options = Transparent \<longrightarrow> isBackground data options index = (a < 10)"
    using tr assms by blast
  have c2: "isBackground data options index =
              (sqrt (real_of_int ((r - rgb_r bg)\<^sup>2 + (g - rgb_g bg)\<^sup>2 + (b - rgb_b bg)\<^sup>2)) < 35) \<and>
            isBackground data options index =
              ((r - rgb_r bg)\<^sup>2 + (g - rgb_g bg)\<^sup>2 + (b - rgb_b bg)\<^sup>2 < 1225) \<and>
            (\<forall>data' index' a'. pixelAt data' index' = Some (r, g, b, a') \<longrightarrow>
               isBackground data' options index' = isBackground data options index)"
    if "opt_mode options = Color" "hexToRgb (opt_color options) = Some bg"
  proof -
    have "isBackground data options index =
        (colorDistance r g b (rgb_r bg) (rgb_g bg) (rgb_b bg) < COLOR_THRESHOLD)"
      using co [OF that assms] .
    moreover have "\<forall>data' index' a'. pixelAt data' index' = Some (r, g, b, a') \<longrightarrow>
        isBackground data' options index' =
          (colorDistance r g b (rgb_r bg) (rgb_g bg) (rgb_b bg) < COLOR_THRESHOLD)"
      using co [OF that] by blast
    moreover have "(colorDistance r g b (rgb_r bg) (rgb_g bg) (rgb_b bg) < COLOR_THRESHOLD) =
        (sqrt (real_of_int ((r - rgb_r bg)\<^sup>2 + (g - rgb_g bg)\<^sup>2 + (b - rgb_b bg)\<^sup>2)) < 35)"
      by (simp only: colorDistance_def COLOR_THRESHOLD_def)
    moreover note colorDistance_less_35 [of r g b "rgb_r bg" "rgb_g bg" "rgb_b bg"]
    ultimately show ?thesis by simp
  qed
  have c3: "isBackground data' options index' = isBackground data options index"
    if "pixelAt data' index' = Some (r, g, b, a)" for data' index'
  proof (cases "opt_mode options")
    case Transparent
    then show ?thesis using tr [OF _ that] tr [OF _ assms] by simp
  next
    case Color
    show ?thesis
    proof (cases "hexToRgb (opt_color options)")
      case None
      then show ?thesis using un [OF Color] by simp
    next
      case (Some c)
      then show ?thesis using co [OF Color Some that] co [OF Color Some assms] by simp
    qed
  qed
  from c1 c2 c3 show ?thesis by blast
qed

text \<open>
  An opaque pixel \<open>(250, 250, 250)\<close> against the key \<open>#ffffff\<close>: distance
  \<open>sqrt 75 < 35\<close>, so it is background in colour mode although its alpha is 255.
\<close>

theorem isBackground_policy_witness:
  "pixelAt [250, 250, 250, 255] 0 = Some (250, 250, 250, 255) \<and>
   hexToRgb ''#ffffff'' = Some \<lparr> rgb_r = 255, rgb_g = 255, rgb_b = 255 \<rparr> \<and>
   isBackground [250, 250, 250, 255] \<lparr> opt_mode = Color, opt_color = ''#ffffff'' \<rparr> 0 \<and>
   \<not> isBackground [250, 250, 250, 255] \<lparr> opt_mode = Transparent, opt_color = ''#ffffff'' \<rparr> 0"
proof -
  have p: "pixelAt [250, 250, 250, 255] 0 = Some (250, 250, 250, 255)"
    by (simp add: pixelAt_def rd_def)
  have h: "hexToRgb ''#ffffff'' = Some \<lparr> rgb_r = 255, rgb_g = 255, rgb_b = 255 \<rparr>"
    by (simp add: hexToRgb_def stripHash_def isHexDigit_def parseInt16_def hexDigitVal_def)
  from isBackground_policy [OF p, of "\<lparr> opt_mode = Color, opt_color = ''#ffffff'' \<rparr>"
      "\<lparr> rgb_r = 255, rgb_g = 255, rgb_b = 255 \<rparr>"] h
  have c: "isBackground [250, 250, 250, 255] \<lparr> opt_mode = Color, opt_color = ''#ffffff'' \<rparr> 0"
    by (simp add: sqrt_less_35)
  from isBackground_policy [OF p, of "\<lparr> opt_mode = Transparent, opt_color = ''#ffffff'' \<rparr>"]
  have t: "\<not> isBackground [250, 250, 250, 255] \<lparr> opt_mode = Transparent, opt_color = ''#ffffff'' \<rparr> 0"
    by simp
  from p h c t show ?thesis by blast
qed

section \<open>Cover-fit projection of a crop into a viewport\<close>

text \<open>
  \<^verbatim>\<open>Thumbnail\<close> (types.ts) and \<^verbatim>\<open>SingleCropPreview\<close> compute the style of the
  preview image.  A JavaScript division by zero yields an infinity or NaN, which is no
  real number: \<open>js_div\<close> returns \<open>None\<close> there, so that a result \<open>Some _\<close> says that no
  division by zero happened.
\<close>

definition js_div :: "real \<Rightarrow> real \<Rightarrow> real option" where
  "js_div a b = (if b = 0 then None else Some (a / b))"

record ContainerSize =
  cs_width :: real
  cs_height :: real

record ImgStyle =
  scale :: real
  scaledWidth :: real
  scaledHeight :: real
  translateX :: real
  translateY :: real

datatype Preview = Placeholder | Styled ImgStyle

definition Thumbnail :: "ImageFile \<Rightarrow> CropRect \<Rightarrow> ContainerSize \<Rightarrow> Preview option" where
  "Thumbnail imageFile crop containerSize =
    (if crop_width crop \<le> 0 \<or> crop_height crop \<le> 0 \<or> img_width imageFile \<le> 0 \<or> img_height imageFile \<le> 0
     then Some Placeholder
     else do {
       cropAspectRatio \<leftarrow> js_div (crop_width crop) (crop_height crop);
       containerAspectRatio \<leftarrow>
         (if cs_width containerSize > 0 \<and> cs_height containerSize > 0
          then js_div (cs_width containerSize) (cs_height containerSize) else Some 1);
       scale \<leftarrow>
         (if cropAspectRatio > containerAspectRatio
          then js_div (cs_height containerSize) (crop_height crop)
          else js_div (cs_width containerSize) (crop_width crop));
       dx \<leftarrow> js_div (cs_width containerSize - crop_width crop * scale) 2;
       dy \<leftarrow> js_div (cs_height containerSize - crop_height crop * scale) 2;
       Some (Styled \<lparr> scale = scale,
         scaledWidth = real_of_int (img_width imageFile) * scale,
         scaledHeight = real_of_int (img_height imageFile) * scale,
         translateX = - (crop_x crop * scale) + dx,
         translateY = - (crop_y crop * scale) + dy \<rparr>)
     })"

definition SingleCropPreview :: "ImageFile \<Rightarrow> CropRect \<Rightarrow> ContainerSize \<Rightarrow> Preview option" where
  "SingleCropPreview imageFile crop containerSize =
    (if crop_width crop \<le> 0 \<or> crop_height crop \<le> 0 \<or> img_width imageFile \<le> 0 \<or> img_height imageFile \<le> 0
     then Some Placeholder
     else do {
       cropAspectRatio \<leftarrow> js_div (crop_width crop) (crop_height crop);
       containerAspectRatio \<leftarrow>
         (if cs_width containerSize > 0 \<and> cs_height containerSize > 0
          then js_div (cs_width containerSize) (cs_height containerSize) else Some 1);
       scale \<leftarrow>
         (if cropAspectRatio > containerAspectRatio
          then js_div (cs_height containerSize) (crop_height crop)
          else js_div (cs_width containerSize) (crop_width crop));
       dx \<leftarrow> js_div (cs_width containerSize - crop_width crop * scale) 2;
       dy \<leftarrow> js_div (cs_height containerSize - crop_height crop * scale) 2;
       Some (Styled \<lparr> scale = scale,
         scaledWidth = real_of_int (img_width imageFile) * scale,
         scaledHeight = real_of_int (img_height imageFile) * scale,
         translateX = - (crop_x crop * scale) + dx,
         translateY = - (crop_y crop * scale) + dy \<rparr>)
     })"

text \<open>The style the specification describes, for a crop \<open>c\<close> and a viewport \<open>v\<close>.\<close>

definition cover_scale :: "CropRect \<Rightarrow> ContainerSize \<Rightarrow> real" where
  "cover_scale c v =
    (if crop_width c / crop_height c > cs_width v / cs_height v
     then cs_height v / crop_height c else cs_width v / crop_width c)"

definition cover_style :: "ImageFile \<Rightarrow> CropRect \<Rightarrow> ContainerSize \<Rightarrow> ImgStyle" where
  "cover_style i c v =
    \<lparr> scale = cover_scale c v,
      scaledWidth = real_of_int (img_width i) * cover_scale c v,
      scaledHeight = real_of_int (img_height i) * cover_scale c v,
      translateX = - (crop_x c * cover_scale c v) + (cs_width v - crop_width c * cover_scale c v) / 2,
      translateY = - (crop_y c * cover_scale c v) + (cs_height v - crop_height c * cover_scale c v) / 2 \<rparr>"

definition degenerate :: "ImageFile \<Rightarrow> CropRect \<Rightarrow> bool" where
  "degenerate i c \<longleftrightarrow>
     crop_width c \<le> 0 \<or> crop_height c \<le> 0 \<or> img_width i \<le> 0 \<or> img_height i \<le> 0"

lemma Thumbnail_degenerate: "degenerate i c \<Longrightarrow> Thumbnail i c v = Some Placeholder"
  by (simp add: Thumbnail_def degenerate_def)

lemma Thumbnail_defined: "Thumbnail i c v \<noteq> None"
  by (simp add: Thumbnail_def js_div_def)

lemma Thumbnail_cover:
  assumes "\<not> degenerate i c" "0 < cs_width v" "0 < cs_height v"
  shows "Thumbnail i c v = Some (Styled (cover_style i c v))"
  using assms
  by (simp add: Thumbnail_def degenerate_def js_div_def cover_style_def cover_scale_def)

lemma SingleCropPreview_eq: "SingleCropPreview i c v = Thumbnail i c v"
  by (simp add: SingleCropPreview_def Thumbnail_def)

lemma cover_scale_equal_aspect:
  assumes "0 < crop_width c" "0 < crop_height c" "0 < cs_width v" "0 < cs_height v"
    and "crop_width c / crop_height c = cs_width v / cs_height v"
  shows "cover_scale c v = cs_width v / crop_width c"
    and "cover_scale c v = cs_height v / crop_height c"
  using assms by (simp_all add: cover_scale_def field_simps)


text \<open>
  Claim C8.  A crop or image with a non-positive width or height gives the placeholder;
  no input makes either component divide by zero; and for a crop, an image and a
  viewport of positive dimensions both components return the cover-fit style:
  \<open>scale = viewport.height / crop.height\<close> when the crop's aspect ratio exceeds the
  viewport's, else \<open>viewport.width / crop.width\<close>, with
  \<open>translateX = -(crop.x * scale) + (viewport.width - crop.width * scale) / 2\<close> and the
  same for Y; with equal aspect ratios the scale is both quotients.  Numbers are
  idealised as reals.
\<close>

theorem cover_fit_projection:
  "(degenerate i c \<longrightarrow>
      Thumbnail i c v = Some Placeholder \<and> SingleCropPreview i c v = Some Placeholder) \<and>
   Thumbnail i c v \<noteq> None \<and> SingleCropPreview i c v \<noteq> None \<and>
   (0 < crop_width c \<and> 0 < crop_height c \<and> 0 < img_width i \<and> 0 < img_height i \<and>
    0 < cs_width v \<and> 0 < cs_height v \<longrightarrow>
      Thumbnail i c v = Some (Styled (cover_style i c v)) \<and>
      SingleCropPreview i c v = Some (Styled (cover_style i c v)) \<and>
      scale (cover_style i c v) =
        (if crop_width c / crop_height c > cs_width v / cs_height v
         then cs_height v / crop_height c else cs_width v / crop_width c) \<and>
      translateX (cover_style i c v) =
        - (crop_x c * scale (cover_style i c v)) +
          (cs_width v - crop_width c * scale (cover_style i c v)) / 2 \<and>
      translateY (cover_style i c v) =
        - (crop_y c * scale (cover_style i c v)) +
          (cs_height v - crop_height c * scale (cover_style i c v)) / 2 \<and>
      (crop_width c / crop_height c = cs_width v / cs_height v \<longrightarrow>
         scale (cover_style i c v) = cs_width v / crop_width c \<and>
         scale (cover_style i c v) = cs_height v / crop_height c))"
proof -
  have deg: "degenerate i c \<longrightarrow>
      Thumbnail i c v = Some Placeholder \<and> SingleCropPreview i c v = Some Placeholder"
    by (simp add: SingleCropPreview_eq Thumbnail_degenerate)
  have def: "Thumbnail i c v \<noteq> None \<and> SingleCropPreview i c v \<noteq> None"
    by (simp add: SingleCropPreview_eq Thumbnail_defined)
  have pos: "Thumbnail i c v = Some (Styled (cover_style i c v)) \<and>
      SingleCropPreview i c v = Some (Styled (cover_style i c v))"
    if "0 < crop_width c" "0 < crop_height c" "0 < img_width i" "0 < img_height i"
      "0 < cs_width v" "0 < cs_height v"
  proof -
    from that have "\<not> degenerate i c" by (simp add: degenerate_def)
    with that show ?thesis by (simp add: SingleCropPreview_eq Thumbnail_cover)
  qed
  have sc: "scale (cover_style i c v) = cover_scale c v"
    by (simp add: cover_style_def)
  have eqa: "scale (cover_style i c v) = cs_width v / crop_width c \<and>
         scale (cover_style i c v) = cs_height v / crop_height c"
    if "0 < crop_width c" "0 < crop_height c" "0 < cs_width v" "0 < cs_height v"
      "crop_width c / crop_height c = cs_width v / cs_height v"
    using cover_scale_equal_aspect [OF that] by (simp add: sc)
  have fm: "scale (cover_style i c v) =
        (if crop_width c / crop_height c > cs_width v / cs_height v
         then cs_height v / crop_height c else cs_width v / crop_width c) \<and>
      translateX (cover_style i c v) =
        - (crop_x c * scale (cover_style i c v)) +
          (cs_width v - crop_width c * scale (cover_style i c v)) / 2 \<and>
      translateY (cover_style i c v) =
        - (crop_y c * scale (cover_style i c v)) +
          (cs_height v - crop_height c * scale (cover_style i c v)) / 2"
    by (simp add: cover_style_def cover_scale_def)
  from deg def pos eqa fm show ?thesis by blast
qed

text \<open>
  A 40 x 20 crop at (10, 5) of a 100 x 50 image in a 160 x 160 viewport: the crop is
  wider than the viewport, so the scale is 160 / 20 = 8.
\<close>

theorem cover_fit_projection_witness:
  "Thumbnail
     \<lparr> img_id = ''a'', img_name = ''a.png'', img_width = 100, img_height = 50, img_data = [] \<rparr>
     \<lparr> crop_id = ''c'', crop_x = 10, crop_y = 5, crop_width = 40, crop_height = 20 \<rparr>
     \<lparr> cs_width = 160, cs_height = 160 \<rparr>
   = Some (Styled \<lparr> scale = 8, scaledWidth = 800, scaledHeight = 400,
       translateX = - 160, translateY = - 40 \<rparr>)"
  using cover_fit_projection
    [of "\<lparr> img_id = ''a'', img_name = ''a.png'', img_width = 100, img_height = 50, img_data = [] \<rparr>"
        "\<lparr> crop_id = ''c'', crop_x = 10, crop_y = 5, crop_width = 40, crop_height = 20 \<rparr>"
        "\<lparr> cs_width = 160, cs_height = 160 \<rparr>"]
  by (simp add: cover_style_def cover_scale_def)


section \<open>Editing crop rectangles\<close>

text \<open>
  The three places that write a \<open>CropRect\<close>: creation (\<^verbatim>\<open>handleFileChange\<close>,
  \<^verbatim>\<open>handleAddCrop\<close> in App.tsx), the numeric fields (\<^verbatim>\<open>handleInputChange\<close> in the
  controls) and dragging (\<^verbatim>\<open>handleInteractionMove\<close> in CropEditor.tsx).
\<close>

definition initialCrop :: "ImageFile \<Rightarrow> CropRect" where
  "initialCrop firstImage =
     (let size = min (real_of_int (img_width firstImage)) (real_of_int (img_height firstImage)) * 0.5
      in \<lparr> crop_id = ''crop'',
           crop_x = (real_of_int (img_width firstImage) - size) / 2,
           crop_y = (real_of_int (img_height firstImage) - size) / 2,
           crop_width = size, crop_height = size \<rparr>)"

definition addedCrop :: "ImageFile \<Rightarrow> CropRect" where
  "addedCrop mainImage =
     (let size = min (real_of_int (img_width mainImage)) (real_of_int (img_height mainImage)) * 0.25
      in \<lparr> crop_id = ''crop'',
           crop_x = (real_of_int (img_width mainImage) - size) / 2,
           crop_y = (real_of_int (img_height mainImage) - size) / 2,
           crop_width = size, crop_height = size \<rparr>)"

datatype Field = FieldX | FieldY | FieldWidth | FieldHeight

text \<open>
  \<open>handleInputChange\<close> receives \<^verbatim>\<open>parseInt(e.target.value, 10)\<close>: an integer, or NaN
  (\<open>None\<close>).  The result is the crop passed to \<^verbatim>\<open>onCropChange\<close>, if any.
\<close>

definition setField :: "CropRect \<Rightarrow> Field \<Rightarrow> real \<Rightarrow> CropRect" where
  "setField c field v =
     (case field of
        FieldX \<Rightarrow> c\<lparr>crop_x := v\<rparr>
      | FieldY \<Rightarrow> c\<lparr>crop_y := v\<rparr>
      | FieldWidth \<Rightarrow> c\<lparr>crop_width := v\<rparr>
      | FieldHeight \<Rightarrow> c\<lparr>crop_height := v\<rparr>)"

definition handleInputChange ::
  "CropRect option \<Rightarrow> int \<Rightarrow> int \<Rightarrow> Field \<Rightarrow> int option \<Rightarrow> CropRect option" where
  "handleInputChange selectedCrop imageWidth imageHeight field value =
     (case (selectedCrop, value) of
        (Some sel, Some n) \<Rightarrow>
          (let v = real_of_int n;
               newCrop = setField sel field v;
               newCrop = (if field = FieldX \<and> v + crop_width newCrop > real_of_int imageWidth
                          then newCrop\<lparr>crop_x := real_of_int imageWidth - crop_width newCrop\<rparr>
                          else newCrop);
               newCrop = (if field = FieldY \<and> v + crop_height newCrop > real_of_int imageHeight
                          then newCrop\<lparr>crop_y := real_of_int imageHeight - crop_height newCrop\<rparr>
                          else newCrop);
               newCrop = (if field = FieldWidth \<and> crop_x newCrop + v > real_of_int imageWidth
                          then newCrop\<lparr>crop_width := real_of_int imageWidth - crop_x newCrop\<rparr>
                          else newCrop);
               newCrop = (if field = FieldHeight \<and> crop_y newCrop + v > real_of_int imageHeight
                          then newCrop\<lparr>crop_height := real_of_int imageHeight - crop_y newCrop\<rparr>
                          else newCrop)
           in Some newCrop)
      | _ \<Rightarrow> None)"

text \<open>
  The drag handles are strings, tested with \<^verbatim>\<open>activeHandle.includes('e')\<close> and the
  like; \<open>includes\<close> is the occurrence of the character in the handle's name.
\<close>

datatype Handle = HandleN | HandleS | HandleE | HandleW | HandleNE | HandleNW | HandleSE | HandleSW | HandleMove

fun handleName :: "Handle \<Rightarrow> string" where
  "handleName HandleN = ''n''"
| "handleName HandleS = ''s''"
| "handleName HandleE = ''e''"
| "handleName HandleW = ''w''"
| "handleName HandleNE = ''ne''"
| "handleName HandleNW = ''nw''"
| "handleName HandleSE = ''se''"
| "handleName HandleSW = ''sw''"
| "handleName HandleMove = ''move''"

definition includes_char :: "Handle \<Rightarrow> char \<Rightarrow> bool" where
  "includes_char h c \<longleftrightarrow> c \<in> set (handleName h)"

text \<open>
  \<open>deltaX\<close> and \<open>deltaY\<close> are the pointer's displacement in image pixels
  (\<^verbatim>\<open>(clientX - startPos.x) * scaleX\<close>); \<open>startCrop\<close> is \<^verbatim>\<open>startPos.current.crop\<close>.
\<close>

definition handleInteractionMove ::
  "Handle \<Rightarrow> CropRect \<Rightarrow> ImageFile \<Rightarrow> real \<Rightarrow> real \<Rightarrow> CropRect" where
  "handleInteractionMove activeHandle startCrop img deltaX deltaY =
     (let x = crop_x startCrop; y = crop_y startCrop;
          width = crop_width startCrop; height = crop_height startCrop;
          minSize = 20;
          width = (if includes_char activeHandle CHR ''e'' then width + deltaX else width);
          (width, x) = (if includes_char activeHandle CHR ''w''
                        then (width - deltaX, x + deltaX) else (width, x));
          height = (if includes_char activeHandle CHR ''s'' then height + deltaY else height);
          (height, y) = (if includes_char activeHandle CHR ''n''
                         then (height - deltaY, y + deltaY) else (height, y));
          (x, y) = (if activeHandle = HandleMove then (x + deltaX, y + deltaY) else (x, y));
          (x, width) = (if width < minSize
                        then ((if includes_char activeHandle CHR ''w''
                               then crop_x startCrop + crop_width startCrop - minSize else x), minSize)
                        else (x, width));
          (y, height) = (if height < minSize
                         then ((if includes_char activeHandle CHR ''n''
                                then crop_y startCrop + crop_height startCrop - minSize else y), minSize)
                         else (y, height));
          (x, y, width, height) =
             (if activeHandle = HandleMove
              then (max 0 (min x (real_of_int (img_width img) - width)),
                    max 0 (min y (real_of_int (img_height img) - height)), width, height)
              else (let x = max 0 x; y = max 0 y
                    in (x, y, min width (real_of_int (img_width img) - x),
                        min height (real_of_int (img_height img) - y))))
      in startCrop\<lparr>crop_x := x, crop_y := y, crop_width := width, crop_height := height\<rparr>)"

text \<open>The invariant of the specification, and its part about bounds alone.\<close>

definition integerValued :: "real \<Rightarrow> bool" where
  "integerValued v \<longleftrightarrow> real_of_int \<lfloor>v\<rfloor> = v"

definition withinBounds :: "int \<Rightarrow> int \<Rightarrow> CropRect \<Rightarrow> bool" where
  "withinBounds imageWidth imageHeight c \<longleftrightarrow>
     0 \<le> crop_x c \<and> 0 \<le> crop_y c \<and>
     crop_x c + crop_width c \<le> real_of_int imageWidth \<and>
     crop_y c + crop_height c \<le> real_of_int imageHeight \<and>
     0 < crop_width c \<and> 0 < crop_height c"

definition cropInvariant :: "int \<Rightarrow> int \<Rightarrow> CropRect \<Rightarrow> bool" where
  "cropInvariant imageWidth imageHeight c \<longleftrightarrow>
     withinBounds imageWidth imageHeight c \<and>
     integerValued (crop_x c) \<and> integerValued (crop_y c) \<and>
     integerValued (crop_width c) \<and> integerValued (crop_height c)"

lemma half_bounds:
  fixes w h :: real
  assumes "0 < w" "0 < h"
  shows "0 \<le> (w - min w h * 0.5) / 2" "(w - min w h * 0.5) / 2 + min w h * 0.5 \<le> w"
        "0 \<le> (h - min w h * 0.5) / 2" "(h - min w h * 0.5) / 2 + min w h * 0.5 \<le> h"
        "0 < min w h * 0.5"
  using assms by (auto simp: min_def field_simps)

lemma quarter_bounds:
  fixes w h :: real
  assumes "0 < w" "0 < h"
  shows "0 \<le> (w - min w h * 0.25) / 2" "(w - min w h * 0.25) / 2 + min w h * 0.25 \<le> w"
        "0 \<le> (h - min w h * 0.25) / 2" "(h - min w h * 0.25) / 2 + min w h * 0.25 \<le> h"
        "0 < min w h * 0.25"
  using assms by (auto simp: min_def field_simps)

lemma initialCrop_within:
  assumes "0 < img_width i" "0 < img_height i"
  shows "withinBounds (img_width i) (img_height i) (initialCrop i)"
proof -
  have "0 < real_of_int (img_width i)" "0 < real_of_int (img_height i)"
    using assms by simp_all
  from half_bounds [OF this] show ?thesis
    by (simp only: initialCrop_def withinBounds_def Let_def CropRect.simps simp_thms)
qed

lemma addedCrop_within:
  assumes "0 < img_width i" "0 < img_height i"
  shows "withinBounds (img_width i) (img_height i) (addedCrop i)"
proof -
  have "0 < real_of_int (img_width i)" "0 < real_of_int (img_height i)"
    using assms by simp_all
  from quarter_bounds [OF this] show ?thesis
    by (simp only: addedCrop_def withinBounds_def Let_def CropRect.simps simp_thms)
qed

lemma resize_within:
  assumes "withinBounds (img_width i) (img_height i) c" "h \<noteq> HandleMove"
  shows "withinBounds (img_width i) (img_height i) (handleInteractionMove h c i dx dy)"
  using assms
  by (cases h; simp add: handleInteractionMove_def Let_def includes_char_def withinBounds_def
        min_def max_def; linarith?)

lemma drag_nonneg:
  "0 \<le> crop_x (handleInteractionMove h c i dx dy) \<and> 0 \<le> crop_y (handleInteractionMove h c i dx dy)"
  by (cases h; simp add: handleInteractionMove_def Let_def includes_char_def)

lemma input_upper:
  assumes "withinBounds iw ih c" "handleInputChange (Some c) iw ih f v = Some c'"
  shows "crop_x c' + crop_width c' \<le> real_of_int iw \<and> crop_y c' + crop_height c' \<le> real_of_int ih"
proof (cases v)
  case None
  with assms(2) show ?thesis by (simp add: handleInputChange_def)
next
  case (Some n)
  with assms show ?thesis
    by (cases f; auto simp: handleInputChange_def Let_def setField_def withinBounds_def)
qed

text \<open>
  Claim C7 fails as stated.  Creation halves the image's shorter side, so a 3 x 3 image
  gets the crop (0.75, 0.75, 1.5, 1.5): not integer-valued.  The numeric field \<open>x\<close> has
  no lower clamp: entering -5 stores \<open>x = -5\<close>.  The handle name \<^verbatim>\<open>'move'\<close> contains an
  \<^verbatim>\<open>'e'\<close>, so a drag-move by 60 to the right also widens a 50 x 50 crop at (0, 0) of a
  100 x 100 image to width 110, beyond the image.
\<close>

theorem crop_invariant_counterexample:
  "\<not> cropInvariant 3 3
       (initialCrop \<lparr> img_id = ''a'', img_name = ''a.png'', img_width = 3, img_height = 3, img_data = [] \<rparr>) \<and>
   cropInvariant 100 100
       \<lparr> crop_id = ''c'', crop_x = 0, crop_y = 0, crop_width = 50, crop_height = 50 \<rparr> \<and>
   handleInputChange
       (Some \<lparr> crop_id = ''c'', crop_x = 0, crop_y = 0, crop_width = 50, crop_height = 50 \<rparr>)
       100 100 FieldX (Some (- 5))
     = Some \<lparr> crop_id = ''c'', crop_x = - 5, crop_y = 0, crop_width = 50, crop_height = 50 \<rparr> \<and>
   \<not> cropInvariant 100 100
       \<lparr> crop_id = ''c'', crop_x = - 5, crop_y = 0, crop_width = 50, crop_height = 50 \<rparr> \<and>
   handleInteractionMove HandleMove
       \<lparr> crop_id = ''c'', crop_x = 0, crop_y = 0, crop_width = 50, crop_height = 50 \<rparr>
       \<lparr> img_id = ''a'', img_name = ''a.png'', img_width = 100, img_height = 100, img_data = [] \<rparr>
       60 0
     = \<lparr> crop_id = ''c'', crop_x = 0, crop_y = 0, crop_width = 110, crop_height = 50 \<rparr> \<and>
   \<not> cropInvariant 100 100
       \<lparr> crop_id = ''c'', crop_x = 0, crop_y = 0, crop_width = 110, crop_height = 50 \<rparr>"
  by (simp add: initialCrop_def cropInvariant_def integerValued_def withinBounds_def Let_def
      handleInputChange_def setField_def handleInteractionMove_def includes_char_def)

text \<open>
  Claim C7 as amended.  A crop created by \<open>initialCrop\<close> or \<open>addedCrop\<close> on an image of
  positive size lies within the image with positive width and height; so does the result
  of a drag with one of the eight resize handles that starts from a crop within the
  image; every drag leaves \<open>x \<ge> 0\<close> and \<open>y \<ge> 0\<close>; and a numeric field entry on a crop
  within the image leaves \<open>x + width \<le> imageWidth\<close> and \<open>y + height \<le> imageHeight\<close>.
  Coordinates are real-valued.
\<close>

theorem crop_edit_bounds:
  "(0 < img_width i \<and> 0 < img_height i \<longrightarrow>
      withinBounds (img_width i) (img_height i) (initialCrop i) \<and>
      withinBounds (img_width i) (img_height i) (addedCrop i)) \<and>
   (withinBounds (img_width i) (img_height i) c \<and> h \<noteq> HandleMove \<longrightarrow>
      withinBounds (img_width i) (img_height i) (handleInteractionMove h c i dx dy)) \<and>
   0 \<le> crop_x (handleInteractionMove h c i dx dy) \<and>
   0 \<le> crop_y (handleInteractionMove h c i dx dy) \<and>
   (withinBounds iw ih c \<and> handleInputChange (Some c) iw ih f v = Some c' \<longrightarrow>
      crop_x c' + crop_width c' \<le> real_of_int iw \<and>
      crop_y c' + crop_height c' \<le> real_of_int ih)"
  using initialCrop_within [of i] addedCrop_within [of i] resize_within [of i c h dx dy]
    drag_nonneg [of h c i dx dy] input_upper [of iw ih c f v c']
  by blast

text \<open>
  On a 100 x 100 image: the initial crop, a drag of the south-east handle of the crop
  (0, 0, 50, 50) by (60, 70), which is cut at the image's edge, and the entry of 120 in
  the width field, which is cut to 100.
\<close>

theorem crop_edit_bounds_witness:
  "withinBounds 100 100
     (initialCrop \<lparr> img_id = ''a'', img_name = ''a.png'', img_width = 100, img_height = 100, img_data = [] \<rparr>) \<and>
   withinBounds 100 100 \<lparr> crop_id = ''c'', crop_x = 0, crop_y = 0, crop_width = 50, crop_height = 50 \<rparr> \<and>
   withinBounds 100 100
     (handleInteractionMove HandleSE
        \<lparr> crop_id = ''c'', crop_x = 0, crop_y = 0, crop_width = 50, crop_height = 50 \<rparr>
        \<lparr> img_id = ''a'', img_name = ''a.png'', img_width = 100, img_height = 100, img_data = [] \<rparr>
        60 70) \<and>
   handleInputChange
       (Some \<lparr> crop_id = ''c'', crop_x = 0, crop_y = 0, crop_width = 50, crop_height = 50 \<rparr>)
       100 100 FieldWidth (Some 120)
     = Some \<lparr> crop_id = ''c'', crop_x = 0, crop_y = 0, crop_width = 100, crop_height = 50 \<rparr> \<and>
   crop_x \<lparr> crop_id = ''c'', crop_x = 0, crop_y = 0, crop_width = 100, crop_height = 50 \<rparr> +
   crop_width \<lparr> crop_id = ''c'', crop_x = 0, crop_y = 0, crop_width = 100, crop_height = 50 \<rparr>
     \<le> real_of_int 100"
proof -
  have b: "withinBounds 100 100
      \<lparr> crop_id = ''c'', crop_x = 0, crop_y = 0, crop_width = 50, crop_height = 50 \<rparr>"
    by (simp add: withinBounds_def)
  have e: "handleInputChange
       (Some \<lparr> crop_id = ''c'', crop_x = 0, crop_y = 0, crop_width = 50, crop_height = 50 \<rparr>)
       100 100 FieldWidth (Some 120)
     = Some \<lparr> crop_id = ''c'', crop_x = 0, crop_y = 0, crop_width = 100, crop_height = 50 \<rparr>"
    by (simp add: handleInputChange_def setField_def Let_def)
  show ?thesis
    using b e crop_edit_bounds
      [of "\<lparr> img_id = ''a'', img_name = ''a.png'', img_width = 100, img_height = 100, img_data = [] \<rparr>"
          "\<lparr> crop_id = ''c'', crop_x = 0, crop_y = 0, crop_width = 50, crop_height = 50 \<rparr>"
          HandleSE 60 70 100 100 FieldWidth "Some 120"
          "\<lparr> crop_id = ''c'', crop_x = 0, crop_y = 0, crop_width = 100, crop_height = 50 \<rparr>"]
    by simp
qed

section \<open>The export loop\<close>

text \<open>
  \<^verbatim>\<open>handleDownload\<close> (App.tsx) as the sequence of its effects.  The browser is a
  parameter: for the crop at index \<open>i\<close> and the image at index \<open>j\<close> it says whether the
  image loads (otherwise the awaited promise rejects and the \<^verbatim>\<open>catch\<close> block runs),
  whether the canvas yields a 2d context, and whether \<^verbatim>\<open>toBlob\<close> yields a blob.  The
  drawn pixels are not modelled: a blob is named by the crop and image it was drawn from.
\<close>

datatype Blob = Png CropRect ImageFile

record Browser =
  loads :: "nat \<Rightarrow> nat \<Rightarrow> bool"
  hasContext :: "nat \<Rightarrow> nat \<Rightarrow> bool"
  hasBlob :: "nat \<Rightarrow> nat \<Rightarrow> bool"

datatype ZipName = CropZip string | CropZipNumbered string nat

datatype Event =
    SetIsLoading bool
  | SetProgress "(nat \<times> nat) option"
  | Visit nat nat
  | Download ZipName "(string \<times> Blob) list"
  | Delay nat
  | Alert

text \<open>
  \<open>Visit i j\<close> marks the start of the inner loop's body for crop \<open>i\<close> and image \<open>j\<close>; the
  other events are the calls the code makes.  \<open>CropZipNumbered base n\<close> stands for
  \<^verbatim>\<open>`${base}-crop-${n}.zip`\<close> and \<open>CropZip base\<close> for \<^verbatim>\<open>`${base}-crop.zip`\<close>.
\<close>

record DownloadState =
  processedCount :: nat
  events :: "Event list"

definition emit :: "Event \<Rightarrow> DownloadState \<Rightarrow> DownloadState" where
  "emit e st = st\<lparr>events := events st @ [e]\<rparr>"

definition countProcessed :: "nat \<Rightarrow> DownloadState \<Rightarrow> DownloadState" where
  "countProcessed totalOperations st =
     emit (SetProgress (Some (processedCount st + 1, totalOperations)))
       (st\<lparr>processedCount := processedCount st + 1\<rparr>)"

text \<open>\<^verbatim>\<open>name.substring(0, name.lastIndexOf('.'))\<close>: empty when the name has no dot.\<close>

fun beforeLastDot :: "string \<Rightarrow> string" where
  "beforeLastDot [] = []"
| "beforeLastDot (c # cs) = (if CHR ''.'' \<in> set cs then c # beforeLastDot cs else [])"

definition zipFile :: "(string \<times> Blob) list \<Rightarrow> string \<Rightarrow> Blob \<Rightarrow> (string \<times> Blob) list" where
  "zipFile archive fileName blob =
     (if fileName \<in> fst ` set archive
      then map (\<lambda>(k, v). if k = fileName then (k, blob) else (k, v)) archive
      else archive @ [(fileName, blob)])"

fun imagesLoop ::
  "Browser \<Rightarrow> nat \<Rightarrow> nat \<Rightarrow> CropRect \<Rightarrow> (nat \<times> ImageFile) list \<Rightarrow>
   DownloadState \<Rightarrow> (string \<times> Blob) list \<Rightarrow> DownloadState \<times> (string \<times> Blob) list \<times> bool" where
  "imagesLoop env totalOperations i crop [] st archive = (st, archive, False)"
| "imagesLoop env totalOperations i crop ((j, imageFile) # rest) st archive =
     (let st = emit (Visit i j) st in
      if \<not> loads env i j then (st, archive, True)
      else if \<not> hasContext env i j
      then imagesLoop env totalOperations i crop rest (countProcessed totalOperations st) archive
      else
        (let archive = (if hasBlob env i j
                    then zipFile archive (beforeLastDot (img_name imageFile) @ ''.png'') (Png crop imageFile)
                    else archive)
         in imagesLoop env totalOperations i crop rest (countProcessed totalOperations st) archive))"

fun cropsLoop ::
  "Browser \<Rightarrow> nat \<Rightarrow> ImageFile list \<Rightarrow> string \<Rightarrow> nat \<Rightarrow> (nat \<times> CropRect) list \<Rightarrow>
   DownloadState \<Rightarrow> DownloadState \<times> bool" where
  "cropsLoop env totalOperations images zipFileNameBase ncrops [] st = (st, False)"
| "cropsLoop env totalOperations images zipFileNameBase ncrops ((i, crop) # rest) st =
     (case imagesLoop env totalOperations i crop (enumerate 0 images) st [] of
        (st, archive, True) \<Rightarrow> (st, True)
      | (st, archive, False) \<Rightarrow>
          (let st = emit (Download (if ncrops > 1 then CropZipNumbered zipFileNameBase (i + 1)
                                    else CropZip zipFileNameBase) archive) st;
               st = (if int i < int ncrops - 1 then emit (Delay 500) st else st)
           in cropsLoop env totalOperations images zipFileNameBase ncrops rest st))"

definition handleDownload :: "Browser \<Rightarrow> ImageFile list \<Rightarrow> CropRect list \<Rightarrow> Event list" where
  "handleDownload env images crops =
     (if length images = 0 \<or> length crops = 0 then []
      else
        (let totalOperations = length images * length crops;
             st = \<lparr> processedCount = 0,
                    events = [SetIsLoading True, SetProgress (Some (0, totalOperations))] \<rparr>;
             zipFileNameBase =
               (let b = beforeLastDot (img_name (hd images))
                in if b = [] then ''cropped-images'' else b);
             (st, thrown) =
               cropsLoop env totalOperations images zipFileNameBase (length crops) (enumerate 0 crops) st;
             st = (if thrown then emit Alert st else st)
         in events (emit (SetProgress None) (emit (SetIsLoading False) st))))"

text \<open>The arguments of the calls of \<^verbatim>\<open>setProgress\<close>, and the pairs, in order.\<close>

fun progressCalls :: "Event list \<Rightarrow> (nat \<times> nat) option list" where
  "progressCalls [] = []"
| "progressCalls (SetProgress p # es) = p # progressCalls es"
| "progressCalls (e # es) = progressCalls es"

fun pairsOf :: "Event list \<Rightarrow> (nat \<times> nat) list" where
  "pairsOf [] = []"
| "pairsOf (Visit i j # es) = (i, j) # pairsOf es"
| "pairsOf (e # es) = pairsOf es"

definition allLoad :: "Browser \<Rightarrow> nat \<Rightarrow> nat \<Rightarrow> bool" where
  "allLoad env c m \<longleftrightarrow> (\<forall>i < c. \<forall>j < m. loads env i j)"

lemma progressCalls_append: "progressCalls (a @ b) = progressCalls a @ progressCalls b"
  by (induction a rule: progressCalls.induct) simp_all

lemma pairsOf_append: "pairsOf (a @ b) = pairsOf a @ pairsOf b"
  by (induction a rule: pairsOf.induct) simp_all

text \<open>
  The archive the specification describes for crop \<open>i\<close>: one file per image, in image
  order, for the images whose pair has a context and a blob.
\<close>

definition keptFiles :: "Browser \<Rightarrow> nat \<Rightarrow> CropRect \<Rightarrow> (nat \<times> ImageFile) list \<Rightarrow> (string \<times> Blob) list \<Rightarrow> (string \<times> Blob) list" where
  "keptFiles env i crop js archive =
     foldl (\<lambda>a (j, imageFile). zipFile a (beforeLastDot (img_name imageFile) @ ''.png'') (Png crop imageFile))
       archive (filter (\<lambda>(j, imageFile). hasContext env i j \<and> hasBlob env i j) js)"

definition downloadsOf :: "Event list \<Rightarrow> (ZipName \<times> (string \<times> Blob) list) list" where
  "downloadsOf es = concat (map (\<lambda>e. case e of Download n a \<Rightarrow> [(n, a)] | _ \<Rightarrow> []) es)"

lemma imagesLoop_run:
  assumes "\<forall>(j, f) \<in> set js. loads env i j"
  shows "\<exists>st'. imagesLoop env t i crop js st archive = (st', keptFiles env i crop js archive, False) \<and>
     processedCount st' = processedCount st + length js \<and>
     progressCalls (events st') = progressCalls (events st) @
        map (\<lambda>k. Some (processedCount st + 1 + k, t)) [0 ..< length js] \<and>
     pairsOf (events st') = pairsOf (events st) @ map (\<lambda>(j, f). (i, j)) js \<and>
     downloadsOf (events st') = downloadsOf (events st) \<and>
     (Alert \<in> set (events st') \<longrightarrow> Alert \<in> set (events st))"
  using assms
proof (induction js arbitrary: st archive)
  case Nil
  then show ?case by (simp add: keptFiles_def)
next
  case (Cons a js)
  obtain j f where a: "a = (j, f)" by (cases a)
  let ?st1 = "countProcessed t (emit (Visit i j) st)"
  have l: "loads env i j" using Cons.prems a by simp
  have rest: "\<forall>(j, f) \<in> set js. loads env i j" using Cons.prems by simp
  have pc: "processedCount ?st1 = processedCount st + 1"
    by (simp add: countProcessed_def emit_def)
  have ev: "events ?st1 = events st @ [Visit i j, SetProgress (Some (processedCount st + 1, t))]"
    by (simp add: countProcessed_def emit_def)
  show ?case
  proof (cases "hasContext env i j \<and> hasBlob env i j")
    case True
    let ?ar = "zipFile archive (beforeLastDot (img_name f) @ ''.png'') (Png crop f)"
    from Cons.IH [OF rest, of ?st1 ?ar] obtain st' where
      "imagesLoop env t i crop js ?st1 ?ar = (st', keptFiles env i crop js ?ar, False)"
      "processedCount st' = processedCount ?st1 + length js"
      "progressCalls (events st') = progressCalls (events ?st1) @
        map (\<lambda>k. Some (processedCount ?st1 + 1 + k, t)) [0 ..< length js]"
      "pairsOf (events st') = pairsOf (events ?st1) @ map (\<lambda>(j, f). (i, j)) js"
      "downloadsOf (events st') = downloadsOf (events ?st1)"
      "Alert \<in> set (events st') \<longrightarrow> Alert \<in> set (events ?st1)"
      by blast
    then show ?thesis using True l
      apply (intro exI [of _ st'])
      apply (simp add: a pc ev map_upt_Suc progressCalls_append pairsOf_append keptFiles_def Let_def downloadsOf_def del: upt_Suc)
      done
  next
    case False
    from Cons.IH [OF rest, of ?st1 archive] obtain st' where
      "imagesLoop env t i crop js ?st1 archive = (st', keptFiles env i crop js archive, False)"
      "processedCount st' = processedCount ?st1 + length js"
      "progressCalls (events st') = progressCalls (events ?st1) @
        map (\<lambda>k. Some (processedCount ?st1 + 1 + k, t)) [0 ..< length js]"
      "pairsOf (events st') = pairsOf (events ?st1) @ map (\<lambda>(j, f). (i, j)) js"
      "downloadsOf (events st') = downloadsOf (events ?st1)"
      "Alert \<in> set (events st') \<longrightarrow> Alert \<in> set (events ?st1)"
      by blast
    then show ?thesis using False l
      apply (intro exI [of _ st'])
      apply (auto simp add: a pc ev map_upt_Suc progressCalls_append pairsOf_append keptFiles_def Let_def downloadsOf_def simp del: upt_Suc)
      done
  qed
qed


lemma map_upt_split: "map f [0 ..< a + b] = map f [0 ..< a] @ map (\<lambda>k. f (a + k)) [0 ..< b]"
  by (induction b) simp_all

lemma map_fst_enumerate0: "map (\<lambda>p. g (fst p)) (enumerate 0 xs) = map g [0 ..< length xs]"
proof -
  have "map (\<lambda>p. g (fst p)) (enumerate 0 xs) = map g (map fst (enumerate 0 xs))"
    by (simp only: map_map comp_def)
  also have "\<dots> = map g [0 ..< length xs]"
    by (simp only: map_fst_enumerate) simp
  finally show ?thesis .
qed

lemma pairs_enumerate: "map (\<lambda>(j, f). (i, j)) (enumerate 0 xs) = map (\<lambda>j. (i, j)) [0 ..< length xs]"
  using map_fst_enumerate0 [of "\<lambda>j. (i, j)" xs] by (simp add: case_prod_unfold)

definition zipNameFor :: "string \<Rightarrow> nat \<Rightarrow> nat \<Rightarrow> ZipName" where
  "zipNameFor base ncrops i = (if ncrops > 1 then CropZipNumbered base (i + 1) else CropZip base)"

lemma downloadsOf_append: "downloadsOf (a @ b) = downloadsOf a @ downloadsOf b"
  by (simp add: downloadsOf_def)

lemma cropsLoop_run:
  assumes "\<forall>(i, c) \<in> set cs. \<forall>j < length images. loads env i j"
  shows "\<exists>st'. cropsLoop env t images base n cs st = (st', False) \<and>
     processedCount st' = processedCount st + length cs * length images \<and>
     progressCalls (events st') = progressCalls (events st) @
        map (\<lambda>k. Some (processedCount st + 1 + k, t)) [0 ..< length cs * length images] \<and>
     pairsOf (events st') = pairsOf (events st) @
        concat (map (\<lambda>(i, c). map (\<lambda>j. (i, j)) [0 ..< length images]) cs) \<and>
     downloadsOf (events st') = downloadsOf (events st) @
        map (\<lambda>(i, c). (zipNameFor base n i, keptFiles env i c (enumerate 0 images) [])) cs \<and>
     (Alert \<in> set (events st') \<longrightarrow> Alert \<in> set (events st))"
  using assms
proof (induction cs arbitrary: st)
  case Nil
  then show ?case by simp
next
  case (Cons a cs)
  obtain i c where a: "a = (i, c)" by (cases a)
  have ld: "\<forall>(j, f) \<in> set (enumerate 0 images). loads env i j"
    using Cons.prems a by (auto simp: in_set_enumerate_eq)
  have rest: "\<forall>(i, c) \<in> set cs. \<forall>j < length images. loads env i j"
    using Cons.prems by simp
  from imagesLoop_run [OF ld, of t c st "[]"] obtain st1 where
    il: "imagesLoop env t i c (enumerate 0 images) st [] =
          (st1, keptFiles env i c (enumerate 0 images) [], False)"
    and pc1: "processedCount st1 = processedCount st + length images"
    and pr1: "progressCalls (events st1) = progressCalls (events st) @
        map (\<lambda>k. Some (processedCount st + 1 + k, t)) [0 ..< length images]"
    and pa1: "pairsOf (events st1) = pairsOf (events st) @ map (\<lambda>j. (i, j)) [0 ..< length images]"
    and dl1: "downloadsOf (events st1) = downloadsOf (events st)"
    and al1: "Alert \<in> set (events st1) \<longrightarrow> Alert \<in> set (events st)"
    by (auto simp: pairs_enumerate)
  define st2 where "st2 = emit (Download (zipNameFor base n i) (keptFiles env i c (enumerate 0 images) [])) st1"
  define st3 where "st3 = (if int i < int n - 1 then emit (Delay 500) st2 else st2)"
  have pc3: "processedCount st3 = processedCount st + length images"
    by (simp add: st3_def st2_def emit_def pc1)
  have pr3: "progressCalls (events st3) = progressCalls (events st1)"
    by (simp add: st3_def st2_def emit_def progressCalls_append)
  have pa3: "pairsOf (events st3) = pairsOf (events st1)"
    by (simp add: st3_def st2_def emit_def pairsOf_append)
  have dl3: "downloadsOf (events st3) = downloadsOf (events st) @
      [(zipNameFor base n i, keptFiles env i c (enumerate 0 images) [])]"
    by (simp add: st3_def st2_def emit_def downloadsOf_append dl1) (simp add: downloadsOf_def)
  have al3: "Alert \<in> set (events st3) \<longrightarrow> Alert \<in> set (events st)"
    using al1 by (simp add: st3_def st2_def emit_def)
  have step: "cropsLoop env t images base n (a # cs) st = cropsLoop env t images base n cs st3"
    by (simp add: a il st3_def st2_def zipNameFor_def Let_def)
  from Cons.IH [OF rest, of st3] obtain st' where
    r: "cropsLoop env t images base n cs st3 = (st', False)"
    and pc: "processedCount st' = processedCount st3 + length cs * length images"
    and pr: "progressCalls (events st') = progressCalls (events st3) @
        map (\<lambda>k. Some (processedCount st3 + 1 + k, t)) [0 ..< length cs * length images]"
    and pa: "pairsOf (events st') = pairsOf (events st3) @
        concat (map (\<lambda>(i, c). map (\<lambda>j. (i, j)) [0 ..< length images]) cs)"
    and dl: "downloadsOf (events st') = downloadsOf (events st3) @
        map (\<lambda>(i, c). (zipNameFor base n i, keptFiles env i c (enumerate 0 images) [])) cs"
    and al: "Alert \<in> set (events st') \<longrightarrow> Alert \<in> set (events st3)"
    by blast
  have prs: "map (\<lambda>k. Some (processedCount st + 1 + k, t)) [0 ..< length (a # cs) * length images] =
      map (\<lambda>k. Some (processedCount st + 1 + k, t)) [0 ..< length images] @
      map (\<lambda>k. Some (processedCount st3 + 1 + k, t)) [0 ..< length cs * length images]"
    using map_upt_split [of "\<lambda>k. Some (processedCount st + 1 + k, t)" "length images" "length cs * length images"]
    by (simp add: pc3 add.assoc add.left_commute)
  show ?case
    apply (rule exI [of _ st'])
    apply (simp only: step r pc pc3 pr pr3 pr1 pa pa3 pa1 dl dl3 prs)
    using al al3 apply (simp add: a)
    done
qed

text \<open>
  The calls of \<^verbatim>\<open>setProgress\<close> together with the starts of the inner loop's body, in
  the order in which they happen: the events of a run without the others.
\<close>

fun progressTrace :: "Event list \<Rightarrow> Event list" where
  "progressTrace [] = []"
| "progressTrace (SetProgress p # es) = SetProgress p # progressTrace es"
| "progressTrace (Visit i j # es) = Visit i j # progressTrace es"
| "progressTrace (e # es) = progressTrace es"

lemma progressTrace_append: "progressTrace (a @ b) = progressTrace a @ progressTrace b"
  by (induction a rule: progressTrace.induct) simp_all

text \<open>
  The events of this kind that the inner loop adds for the images \<open>js\<close> when the counter
  stands at \<open>pc\<close>, and those that the outer loop adds for the crops \<open>cs\<close>.
\<close>

fun pairEvents :: "nat \<Rightarrow> nat \<Rightarrow> nat \<Rightarrow> (nat \<times> ImageFile) list \<Rightarrow> Event list" where
  "pairEvents t i pc [] = []"
| "pairEvents t i pc ((j, f) # js) =
     Visit i j # SetProgress (Some (pc + 1, t)) # pairEvents t i (pc + 1) js"

fun cropsTrace :: "nat \<Rightarrow> ImageFile list \<Rightarrow> nat \<Rightarrow> (nat \<times> CropRect) list \<Rightarrow> Event list" where
  "cropsTrace t images pc [] = []"
| "cropsTrace t images pc ((i, c) # cs) =
     pairEvents t i pc (enumerate 0 images) @ cropsTrace t images (pc + length images) cs"

lemma imagesLoop_trace:
  assumes "\<forall>(j, f) \<in> set js. loads env i j"
  shows "progressTrace (events (fst (imagesLoop env t i crop js st archive))) =
     progressTrace (events st) @ pairEvents t i (processedCount st) js"
  using assms
proof (induction js arbitrary: st archive)
  case Nil
  then show ?case by simp
next
  case (Cons a js)
  obtain j f where a: "a = (j, f)" by (cases a)
  let ?st1 = "countProcessed t (emit (Visit i j) st)"
  have l: "loads env i j" using Cons.prems a by simp
  have rest: "\<forall>(j, f) \<in> set js. loads env i j" using Cons.prems by simp
  have pc: "processedCount ?st1 = processedCount st + 1"
    by (simp add: countProcessed_def emit_def)
  have ev: "events ?st1 = events st @ [Visit i j, SetProgress (Some (processedCount st + 1, t))]"
    by (simp add: countProcessed_def emit_def)
  have "\<exists>ar. imagesLoop env t i crop (a # js) st archive = imagesLoop env t i crop js ?st1 ar"
    using l by (auto simp: a Let_def)
  then obtain ar where
    s: "imagesLoop env t i crop (a # js) st archive = imagesLoop env t i crop js ?st1 ar" ..
  show ?case
    unfolding s Cons.IH [OF rest, of ?st1 ar]
    by (simp add: a pc ev progressTrace_append)
qed

lemma cropsLoop_trace:
  assumes "\<forall>(i, c) \<in> set cs. \<forall>j < length images. loads env i j"
  shows "progressTrace (events (fst (cropsLoop env t images base n cs st))) =
     progressTrace (events st) @ cropsTrace t images (processedCount st) cs"
  using assms
proof (induction cs arbitrary: st)
  case Nil
  then show ?case by simp
next
  case (Cons a cs)
  obtain i c where a: "a = (i, c)" by (cases a)
  have ld: "\<forall>(j, f) \<in> set (enumerate 0 images). loads env i j"
    using Cons.prems a by (auto simp: in_set_enumerate_eq)
  have rest: "\<forall>(i, c) \<in> set cs. \<forall>j < length images. loads env i j"
    using Cons.prems by simp
  from imagesLoop_run [OF ld, of t c st "[]"] obtain st1 where
    il: "imagesLoop env t i c (enumerate 0 images) st [] =
          (st1, keptFiles env i c (enumerate 0 images) [], False)"
    and pc1: "processedCount st1 = processedCount st + length images"
    by auto
  have tr1: "progressTrace (events st1) =
      progressTrace (events st) @ pairEvents t i (processedCount st) (enumerate 0 images)"
    using imagesLoop_trace [OF ld, of t c st "[]"] by (simp add: il)
  define st2 where "st2 = emit (Download (zipNameFor base n i) (keptFiles env i c (enumerate 0 images) [])) st1"
  define st3 where "st3 = (if int i < int n - 1 then emit (Delay 500) st2 else st2)"
  have pc3: "processedCount st3 = processedCount st + length images"
    by (simp add: st3_def st2_def emit_def pc1)
  have tr3: "progressTrace (events st3) = progressTrace (events st1)"
    by (simp add: st3_def st2_def emit_def progressTrace_append)
  have step: "cropsLoop env t images base n (a # cs) st = cropsLoop env t images base n cs st3"
    by (simp add: a il st3_def st2_def zipNameFor_def Let_def)
  show ?case
    unfolding step Cons.IH [OF rest, of st3]
    by (simp add: a pc3 tr3 tr1)
qed

lemma pairEvents_enumerate:
  "pairEvents t i pc (enumerate k xs) =
     concat (map (\<lambda>m. [Visit i (k + m), SetProgress (Some (pc + m + 1, t))]) [0 ..< length xs])"
proof (induction xs arbitrary: k pc)
  case Nil
  then show ?case by simp
next
  case (Cons x xs)
  show ?case
    by (simp add: Cons.IH map_upt_Suc del: upt_Suc)
qed

lemma cropsTrace_enumerate:
  "cropsTrace t images (k * length images) (enumerate k cs) =
     concat (map (\<lambda>m. concat (map (\<lambda>j. [Visit (k + m) j,
                SetProgress (Some ((k + m) * length images + j + 1, t))]) [0 ..< length images]))
        [0 ..< length cs])"
proof (induction cs arbitrary: k)
  case Nil
  then show ?case by simp
next
  case (Cons c cs)
  have e: "k * length images + length images = Suc k * length images" by simp
  show ?case
    using Cons.IH [of "Suc k"] pairEvents_enumerate [of t k "k * length images" 0 images]
    by (simp add: map_upt_Suc e del: upt_Suc mult_Suc)
qed

lemma handleDownload_trace:
  assumes "images \<noteq> []" "crops \<noteq> []" "allLoad env (length crops) (length images)"
  shows "progressTrace (handleDownload env images crops) =
           SetProgress (Some (0, length crops * length images)) #
           concat (map (\<lambda>i. concat (map (\<lambda>j.
               [Visit i j, SetProgress (Some (i * length images + j + 1, length crops * length images))])
               [0 ..< length images])) [0 ..< length crops]) @
           [SetProgress None]"
proof -
  let ?t = "length images * length crops"
  let ?base = "let b = beforeLastDot (img_name (hd images)) in if b = [] then ''cropped-images'' else b"
  let ?st0 = "\<lparr> processedCount = 0, events = [SetIsLoading True, SetProgress (Some (0, ?t))] \<rparr>"
  have ld: "\<forall>(i, c) \<in> set (enumerate 0 crops). \<forall>j < length images. loads env i j"
    using assms(3) by (auto simp: allLoad_def in_set_enumerate_eq)
  from cropsLoop_run [OF ld, of ?t ?base "length crops" ?st0] obtain st' where
    r: "cropsLoop env ?t images ?base (length crops) (enumerate 0 crops) ?st0 = (st', False)"
    by blast
  have hd: "handleDownload env images crops = events st' @ [SetIsLoading False, SetProgress None]"
    using assms(1,2) r by (simp add: handleDownload_def Let_def emit_def)
  have tr: "progressTrace (events st') =
      progressTrace (events ?st0) @ cropsTrace ?t images 0 (enumerate 0 crops)"
    using cropsLoop_trace [OF ld, of ?t ?base "length crops" ?st0] by (simp add: r)
  show ?thesis
    using cropsTrace_enumerate [of ?t images 0 crops]
    by (simp add: hd progressTrace_append tr mult.commute)
qed

text \<open>
  Claim C4 fails as stated in its count: \<^verbatim>\<open>setProgress\<close> is also called before the
  loop, with \<open>(0, total)\<close>, and in the \<^verbatim>\<open>finally\<close> block, with \<^verbatim>\<open>null\<close>.  For one
  crop and one image it is called three times, not once.
\<close>

abbreviation sampleImage :: "string \<Rightarrow> ImageFile" where
  "sampleImage n \<equiv> \<lparr> img_id = n, img_name = n, img_width = 10, img_height = 10, img_data = [] \<rparr>"

abbreviation sampleCrop :: "string \<Rightarrow> CropRect" where
  "sampleCrop n \<equiv> \<lparr> crop_id = n, crop_x = 0, crop_y = 0, crop_width = 5, crop_height = 5 \<rparr>"

theorem export_progress_counterexample:
  "progressCalls
     (handleDownload \<lparr> loads = \<lambda>i j. True, hasContext = \<lambda>i j. True, hasBlob = \<lambda>i j. True \<rparr>
        [sampleImage ''a.png''] [sampleCrop ''c''])
     = [Some (0, 1), Some (1, 1), None] \<and>
   length (progressCalls
     (handleDownload \<lparr> loads = \<lambda>i j. True, hasContext = \<lambda>i j. True, hasBlob = \<lambda>i j. True \<rparr>
        [sampleImage ''a.png''] [sampleCrop ''c'']))
     \<noteq> length [sampleCrop ''c''] * length [sampleImage ''a.png'']"
  by (simp add: handleDownload_def Let_def emit_def countProcessed_def zipFile_def)

text \<open>
  Claim C4 as amended.  For non-empty sequences of \<open>C\<close> crops and \<open>M\<close> images that all
  load, the inner loop's body runs for the pairs (crop, image) in crop-major order;
  \<^verbatim>\<open>setProgress\<close> is called first with \<open>(0, C * M)\<close>, before the body runs for any
  pair, then exactly once after the body has started for each pair and before it starts
  for the next, with \<open>processed = 1, 2, ..., C * M\<close> and \<open>total = C * M\<close> (the pair of crop
  \<open>i\<close> and image \<open>j\<close> is followed by \<open>processed = i * M + j + 1\<close>), and last with
  \<^verbatim>\<open>null\<close>; the job is not aborted (no alert), whatever pairs lack a drawing context:
  such a pair is counted and its file is left out of the crop's archive.
\<close>

theorem export_progress:
  assumes "images \<noteq> []" "crops \<noteq> []" "allLoad env (length crops) (length images)"
  shows "progressTrace (handleDownload env images crops) =
           SetProgress (Some (0, length crops * length images)) #
           concat (map (\<lambda>i. concat (map (\<lambda>j.
               [Visit i j, SetProgress (Some (i * length images + j + 1, length crops * length images))])
               [0 ..< length images])) [0 ..< length crops]) @
           [SetProgress None] \<and>
         pairsOf (handleDownload env images crops) =
           concat (map (\<lambda>i. map (\<lambda>j. (i, j)) [0 ..< length images]) [0 ..< length crops]) \<and>
         progressCalls (handleDownload env images crops) =
           Some (0, length crops * length images) #
           map (\<lambda>k. Some (k, length crops * length images)) [1 ..< length crops * length images + 1] @ [None] \<and>
         Alert \<notin> set (handleDownload env images crops) \<and>
         map snd (downloadsOf (handleDownload env images crops)) =
           map (\<lambda>(i, c). keptFiles env i c (enumerate 0 images) []) (enumerate 0 crops)"
proof -
  let ?t = "length images * length crops"
  let ?base = "let b = beforeLastDot (img_name (hd images)) in if b = [] then ''cropped-images'' else b"
  let ?st0 = "\<lparr> processedCount = 0, events = [SetIsLoading True, SetProgress (Some (0, ?t))] \<rparr>"
  have ld: "\<forall>(i, c) \<in> set (enumerate 0 crops). \<forall>j < length images. loads env i j"
    using assms(3) by (auto simp: allLoad_def in_set_enumerate_eq)
  from cropsLoop_run [OF ld, of ?t ?base "length crops" ?st0] obtain st' where
    r: "cropsLoop env ?t images ?base (length crops) (enumerate 0 crops) ?st0 = (st', False)"
    and pr: "progressCalls (events st') = progressCalls (events ?st0) @
        map (\<lambda>k. Some (processedCount ?st0 + 1 + k, ?t)) [0 ..< length (enumerate 0 crops) * length images]"
    and pa: "pairsOf (events st') = pairsOf (events ?st0) @
        concat (map (\<lambda>(i, c). map (\<lambda>j. (i, j)) [0 ..< length images]) (enumerate 0 crops))"
    and dl: "downloadsOf (events st') = downloadsOf (events ?st0) @
        map (\<lambda>(i, c). (zipNameFor ?base (length crops) i, keptFiles env i c (enumerate 0 images) []))
          (enumerate 0 crops)"
    and al: "Alert \<in> set (events st') \<longrightarrow> Alert \<in> set (events ?st0)"
    by blast
  have hd: "handleDownload env images crops = events st' @ [SetIsLoading False, SetProgress None]"
    using assms(1,2) r by (simp add: handleDownload_def Let_def emit_def)
  have p1: "concat (map (\<lambda>(i, c). map (\<lambda>j. (i, j)) [0 ..< length images]) (enumerate 0 crops)) =
      concat (map (\<lambda>i. map (\<lambda>j. (i, j)) [0 ..< length images]) [0 ..< length crops])"
    using map_fst_enumerate0 [of "\<lambda>i. map (\<lambda>j. (i, j)) [0 ..< length images]" crops]
    by (simp add: case_prod_unfold)
  have p2: "map (\<lambda>k. Some (Suc k, n)) [0 ..< m] = map (\<lambda>k. Some (k, n)) [1 ..< m + 1]" for m n :: nat
    using map_Suc_upt [of 0 m] by (simp add: map_upt_Suc del: upt_Suc) (metis (no_types, lifting) List.map.compositionality comp_apply map_Suc_upt map_eq_conv)
  have rest: "pairsOf (handleDownload env images crops) =
           concat (map (\<lambda>i. map (\<lambda>j. (i, j)) [0 ..< length images]) [0 ..< length crops]) \<and>
         progressCalls (handleDownload env images crops) =
           Some (0, length crops * length images) #
           map (\<lambda>k. Some (k, length crops * length images)) [1 ..< length crops * length images + 1] @ [None] \<and>
         Alert \<notin> set (handleDownload env images crops) \<and>
         map snd (downloadsOf (handleDownload env images crops)) =
           map (\<lambda>(i, c). keptFiles env i c (enumerate 0 images) []) (enumerate 0 crops)"
    apply (simp only: hd pairsOf_append progressCalls_append pr pa p1)
    apply (simp add: p2 mult.commute dl downloadsOf_append del: upt_Suc)
    using al apply (simp add: downloadsOf_def case_prod_unfold comp_def)
    done
  from handleDownload_trace [OF assms] rest show ?thesis by (rule conjI)
qed


text \<open>
  Two crops and two images; the first crop gets no context for the second image.  The
  counter still runs 1, 2, 3, 4, and the first archive holds one file only.
\<close>

theorem export_progress_witness:
  "allLoad \<lparr> loads = \<lambda>i j. True, hasContext = \<lambda>i j. \<not> (i = 0 \<and> j = 1), hasBlob = \<lambda>i j. True \<rparr> 2 2 \<and>
   progressTrace
     (handleDownload \<lparr> loads = \<lambda>i j. True, hasContext = \<lambda>i j. \<not> (i = 0 \<and> j = 1), hasBlob = \<lambda>i j. True \<rparr>
        [sampleImage ''a.png'', sampleImage ''b.png''] [sampleCrop ''c'', sampleCrop ''d''])
     = [SetProgress (Some (0, 4)),
        Visit 0 0, SetProgress (Some (1, 4)), Visit 0 1, SetProgress (Some (2, 4)),
        Visit 1 0, SetProgress (Some (3, 4)), Visit 1 1, SetProgress (Some (4, 4)),
        SetProgress None] \<and>
   pairsOf
     (handleDownload \<lparr> loads = \<lambda>i j. True, hasContext = \<lambda>i j. \<not> (i = 0 \<and> j = 1), hasBlob = \<lambda>i j. True \<rparr>
        [sampleImage ''a.png'', sampleImage ''b.png''] [sampleCrop ''c'', sampleCrop ''d''])
     = [(0, 0), (0, 1), (1, 0), (1, 1)] \<and>
   progressCalls
     (handleDownload \<lparr> loads = \<lambda>i j. True, hasContext = \<lambda>i j. \<not> (i = 0 \<and> j = 1), hasBlob = \<lambda>i j. True \<rparr>
        [sampleImage ''a.png'', sampleImage ''b.png''] [sampleCrop ''c'', sampleCrop ''d''])
     = [Some (0, 4), Some (1, 4), Some (2, 4), Some (3, 4), Some (4, 4), None] \<and>
   map snd (downloadsOf
     (handleDownload \<lparr> loads = \<lambda>i j. True, hasContext = \<lambda>i j. \<not> (i = 0 \<and> j = 1), hasBlob = \<lambda>i j. True \<rparr>
        [sampleImage ''a.png'', sampleImage ''b.png''] [sampleCrop ''c'', sampleCrop ''d'']))
     = [[(''a.png'', Png (sampleCrop ''c'') (sampleImage ''a.png''))],
        [(''a.png'', Png (sampleCrop ''d'') (sampleImage ''a.png'')),
         (''b.png'', Png (sampleCrop ''d'') (sampleImage ''b.png''))]]"
proof -
  let ?env = "\<lparr> loads = \<lambda>i j. True, hasContext = \<lambda>i j. \<not> (i = 0 \<and> j = 1), hasBlob = \<lambda>i j. True \<rparr>"
  have l: "allLoad ?env (length [sampleCrop ''c'', sampleCrop ''d''])
      (length [sampleImage ''a.png'', sampleImage ''b.png''])"
    by (simp add: allLoad_def)
  have n: "[sampleImage ''a.png'', sampleImage ''b.png''] \<noteq> []" "[sampleCrop ''c'', sampleCrop ''d''] \<noteq> []"
    by simp_all
  have u: "[1 ..< 5] = [1, 2, 3, 4]" by (simp add: upt_rec)
  have l2: "allLoad ?env 2 2"
    by (simp add: allLoad_def)
  show ?thesis
    using l2 export_progress [OF n l]
    by (simp add: u keptFiles_def zipFile_def upt_rec [of 0])
qed

section \<open>Object detection by flood fill\<close>

text \<open>
  \<^verbatim>\<open>detectObjectsFromImage\<close> (App.tsx).  Pixel coordinates are integers, since the
  code forms \<open>cx - 1\<close> and tests \<open>nx >= 0\<close>.  The visited flags are a byte array; a read
  outside it is \<^verbatim>\<open>undefined\<close> (falsy) and a write outside it is ignored.
\<close>

type_synonym pos = "int \<times> int"

definition isVisited :: "u8 list \<Rightarrow> int \<Rightarrow> bool" where
  "isVisited visited i = (case rd visited i of Some v \<Rightarrow> v \<noteq> 0 | None \<Rightarrow> False)"

definition wr :: "u8 list \<Rightarrow> int \<Rightarrow> u8 \<Rightarrow> u8 list" where
  "wr a i v = (if 0 \<le> i then a[nat i := v] else a)"

definition markVisited :: "u8 list \<Rightarrow> int \<Rightarrow> u8 list" where
  "markVisited visited i = wr visited i 1"

definition directions :: "(int \<times> int) list" where
  "directions = [(0, 1), (0, - 1), (1, 0), (- 1, 0)]"

record Box =
  box_x :: int
  box_y :: int
  box_width :: int
  box_height :: int

record FillState =
  fs_queue :: "pos list"
  fs_head :: nat
  fs_visited :: "u8 list"
  fs_minX :: int
  fs_minY :: int
  fs_maxX :: int
  fs_maxY :: int

text \<open>The body of the loop over the four directions, for the dequeued pixel \<open>(cx, cy)\<close>.\<close>

definition tryNeighbour ::
  "u8 list \<Rightarrow> DetectOptions \<Rightarrow> int \<Rightarrow> int \<Rightarrow> pos \<Rightarrow> pos list \<times> u8 list \<Rightarrow> int \<times> int \<Rightarrow>
   pos list \<times> u8 list" where
  "tryNeighbour data options width height c qv d =
     (case (c, qv, d) of ((cx, cy), (queue, visited), (dx, dy)) \<Rightarrow>
        (let nx = cx + dx; ny = cy + dy in
         if nx \<ge> 0 \<and> nx < width \<and> ny \<ge> 0 \<and> ny < height
         then (let ni = ny * width + nx in
               if \<not> isVisited visited ni \<and> \<not> isBackground data options (ni * 4)
               then (queue @ [(nx, ny)], markVisited visited ni)
               else (queue, visited))
         else (queue, visited)))"

text \<open>One iteration of \<^verbatim>\<open>while (head < queue.length)\<close>.\<close>

definition fillStep :: "u8 list \<Rightarrow> DetectOptions \<Rightarrow> int \<Rightarrow> int \<Rightarrow> FillState \<Rightarrow> FillState" where
  "fillStep data options width height s =
     (case fs_queue s ! fs_head s of (cx, cy) \<Rightarrow>
        (case foldl (tryNeighbour data options width height (cx, cy))
                (fs_queue s, fs_visited s) directions of
           (queue, visited) \<Rightarrow>
             \<lparr> fs_queue = queue, fs_head = fs_head s + 1, fs_visited = visited,
               fs_minX = min (fs_minX s) cx, fs_minY = min (fs_minY s) cy,
               fs_maxX = max (fs_maxX s) cx, fs_maxY = max (fs_maxY s) cy \<rparr>))"

partial_function (option) floodFill ::
  "u8 list \<Rightarrow> DetectOptions \<Rightarrow> int \<Rightarrow> int \<Rightarrow> FillState \<Rightarrow> FillState option" where
  "floodFill data options width height s =
     (if fs_head s < length (fs_queue s)
      then floodFill data options width height (fillStep data options width height s)
      else Some s)"

text \<open>
  The state of the scan: the visited flags and the boxes found so far.  The third
  component is a history variable, not in the code: every pixel put on a queue so far.
\<close>

record ScanState =
  sc_visited :: "u8 list"
  sc_boundingBoxes :: "Box list"
  sc_enqueued :: "pos list"

definition scanPixel ::
  "u8 list \<Rightarrow> DetectOptions \<Rightarrow> int \<Rightarrow> int \<Rightarrow> pos \<Rightarrow> ScanState \<Rightarrow> ScanState option" where
  "scanPixel data options width height p st =
     (case p of (x, y) \<Rightarrow>
        (let i = y * width + x in
         if isVisited (sc_visited st) i then Some st
         else
           (let pixelIndex = i * 4 in
            if isBackground data options pixelIndex
            then Some (st\<lparr>sc_visited := markVisited (sc_visited st) i\<rparr>)
            else
              (case floodFill data options width height
                      \<lparr> fs_queue = [(x, y)], fs_head = 0,
                        fs_visited = markVisited (sc_visited st) i,
                        fs_minX = x, fs_minY = y, fs_maxX = x, fs_maxY = y \<rparr> of
                 None \<Rightarrow> None
               | Some s \<Rightarrow>
                   Some \<lparr> sc_visited = fs_visited s,
                          sc_boundingBoxes =
                            (if fs_maxX s - fs_minX s > 5 \<and> fs_maxY s - fs_minY s > 5
                             then sc_boundingBoxes st @
                                  [\<lparr> box_x = fs_minX s, box_y = fs_minY s,
                                     box_width = fs_maxX s - fs_minX s + 1,
                                     box_height = fs_maxY s - fs_minY s + 1 \<rparr>]
                             else sc_boundingBoxes st),
                          sc_enqueued = sc_enqueued st @ fs_queue s \<rparr>))))"

fun scanLoop ::
  "u8 list \<Rightarrow> DetectOptions \<Rightarrow> int \<Rightarrow> int \<Rightarrow> pos list \<Rightarrow> ScanState \<Rightarrow> ScanState option" where
  "scanLoop data options width height [] st = Some st"
| "scanLoop data options width height (p # ps) st =
     (case scanPixel data options width height p st of
        None \<Rightarrow> None
      | Some st' \<Rightarrow> scanLoop data options width height ps st')"

text \<open>
  The pixels in the order of \<^verbatim>\<open>for (y = 0; y < height; y++) for (x = 0; x < width; x++)\<close>.
\<close>

definition pixelOrder :: "int \<Rightarrow> int \<Rightarrow> pos list" where
  "pixelOrder width height = concat (map (\<lambda>y. map (\<lambda>x. (x, y)) [0..width - 1]) [0..height - 1])"

definition detectScan :: "ImageFile \<Rightarrow> DetectOptions \<Rightarrow> ScanState option" where
  "detectScan imageFile options =
     (let width = img_width imageFile; height = img_height imageFile;
          data = img_data imageFile;
          visited = replicate (nat (width * height)) 0
      in scanLoop data options width height (pixelOrder width height)
           \<lparr> sc_visited = visited, sc_boundingBoxes = [], sc_enqueued = [] \<rparr>)"

definition detectObjectsFromImage :: "ImageFile \<Rightarrow> DetectOptions \<Rightarrow> Box list option" where
  "detectObjectsFromImage imageFile options =
     map_option sc_boundingBoxes (detectScan imageFile options)"

subsection \<open>The grid and its 4-connected regions\<close>

text \<open>
  \<open>inGrid\<close> is the range test of the code, \<open>idx\<close> the index \<open>y * width + x\<close> into the
  visited flags, \<open>neighbours\<close> the four pixels the inner loop looks at.  Two pixels are
  linked when both are in the grid, both satisfy \<open>ok\<close> and one is a neighbour of the
  other; the region of a set \<open>S\<close> is what links reach from \<open>S\<close>.
\<close>

definition inGrid :: "int \<Rightarrow> int \<Rightarrow> pos \<Rightarrow> bool" where
  "inGrid width height p \<longleftrightarrow> 0 \<le> fst p \<and> fst p < width \<and> 0 \<le> snd p \<and> snd p < height"

definition idx :: "int \<Rightarrow> pos \<Rightarrow> int" where
  "idx width p = snd p * width + fst p"

definition neighbours :: "pos \<Rightarrow> pos list" where
  "neighbours c = map (\<lambda>d. (fst c + fst d, snd c + snd d)) directions"

definition link :: "int \<Rightarrow> int \<Rightarrow> (pos \<Rightarrow> bool) \<Rightarrow> (pos \<times> pos) set" where
  "link width height ok =
     {(p, q). inGrid width height p \<and> ok p \<and> inGrid width height q \<and> ok q \<and> q \<in> set (neighbours p)}"

definition region :: "int \<Rightarrow> int \<Rightarrow> (pos \<Rightarrow> bool) \<Rightarrow> pos set \<Rightarrow> pos set" where
  "region width height ok S = {q. \<exists>s \<in> S. (s, q) \<in> (link width height ok)\<^sup>*}"

lemma neighbours_sym: "q \<in> set (neighbours p) \<Longrightarrow> p \<in> set (neighbours q)"
  by (cases p; cases q) (auto simp: neighbours_def directions_def)

lemma link_sym: "(p, q) \<in> link w h ok \<Longrightarrow> (q, p) \<in> link w h ok"
  by (auto simp: link_def dest: neighbours_sym)

lemma link_rtrancl_sym: "(p, q) \<in> (link w h ok)\<^sup>* \<Longrightarrow> (q, p) \<in> (link w h ok)\<^sup>*"
  by (induction rule: rtrancl_induct) (auto intro: converse_rtrancl_into_rtrancl link_sym)

lemma idx_inj:
  assumes "inGrid w h p" "inGrid w h q" "idx w p = idx w q"
  shows "p = q"
proof -
  obtain x y where p: "p = (x, y)" by (cases p)
  obtain x' y' where q: "q = (x', y')" by (cases q)
  from assms have b: "0 \<le> x" "x < w" "0 \<le> x'" "x' < w" and e: "y * w + x = y' * w + x'"
    by (auto simp: inGrid_def idx_def p q)
  have "(y * w + x) div w = y" "(y' * w + x') div w = y'" using b by simp_all
  with e have "y = y'" by simp
  with e show ?thesis by (simp add: p q)
qed

lemma idx_range:
  assumes "inGrid w h p"
  shows "0 \<le> idx w p \<and> idx w p < w * h"
proof -
  obtain x y where p: "p = (x, y)" by (cases p)
  from assms have b: "0 \<le> x" "x < w" "0 \<le> y" "y < h" by (auto simp: inGrid_def p)
  have "y * w + x < y * w + w" using b by simp
  also have "\<dots> = (y + 1) * w" by (simp add: algebra_simps)
  also have "\<dots> \<le> h * w" using b by (intro mult_right_mono) auto
  finally have "y * w + x < w * h" by (simp add: mult.commute)
  moreover have "0 \<le> y * w + x" using b by simp
  ultimately show ?thesis by (simp add: idx_def p)
qed

lemma finite_grid: "finite {p. inGrid w h p}"
proof -
  have "{p. inGrid w h p} \<subseteq> {0..<w} \<times> {0..<h}" by (auto simp: inGrid_def)
  then show ?thesis by (rule finite_subset) simp
qed

lemma card_grid: "card {p. inGrid w h p} = nat w * nat h"
proof -
  have "{p. inGrid w h p} = {0..<w} \<times> {0..<h}" by (auto simp: inGrid_def)
  then show ?thesis by (simp add: card_cartesian_product)
qed

lemma isVisited_mark:
  assumes "0 \<le> i" "nat i < length vis"
  shows "isVisited (markVisited vis i) j \<longleftrightarrow> j = i \<or> isVisited vis j"
  using assms by (auto simp: isVisited_def markVisited_def wr_def rd_def nth_list_update split: option.splits)

lemma length_markVisited [simp]: "length (markVisited vis i) = length vis"
  by (simp add: markVisited_def wr_def)


definition pushIf ::
  "int \<Rightarrow> int \<Rightarrow> (pos \<Rightarrow> bool) \<Rightarrow> pos list \<times> u8 list \<Rightarrow> pos \<Rightarrow> pos list \<times> u8 list" where
  "pushIf width height ok qv n =
     (if inGrid width height n \<and> \<not> isVisited (snd qv) (idx width n) \<and> ok n
      then (fst qv @ [n], markVisited (snd qv) (idx width n))
      else qv)"

definition qvInv ::
  "int \<Rightarrow> int \<Rightarrow> (pos \<Rightarrow> bool) \<Rightarrow> pos set \<Rightarrow> pos set \<Rightarrow> pos list \<Rightarrow> u8 list \<Rightarrow> bool" where
  "qvInv width height ok V0 R queue visited \<longleftrightarrow>
     length visited = nat (width * height) \<and> distinct queue \<and>
     (\<forall>q \<in> set queue. inGrid width height q \<and> ok q \<and> q \<in> R \<and> q \<notin> V0) \<and>
     (\<forall>p. inGrid width height p \<longrightarrow>
        (isVisited visited (idx width p) \<longleftrightarrow> p \<in> V0 \<or> p \<in> set queue))"

lemma qvInv_visited:
  assumes "qvInv w h ok V0 R queue vis" "inGrid w h p"
  shows "isVisited vis (idx w p) \<longleftrightarrow> p \<in> V0 \<or> p \<in> set queue"
  using assms unfolding qvInv_def by blast

lemma qvInv_queue:
  assumes "qvInv w h ok V0 R queue vis" "q \<in> set queue"
  shows "inGrid w h q" "ok q" "q \<in> R" "q \<notin> V0"
  using assms unfolding qvInv_def by blast+

lemma qvInv_simple:
  assumes "qvInv w h ok V0 R queue vis"
  shows "length vis = nat (w * h)" "distinct queue"
  using assms unfolding qvInv_def by blast+

lemma isVisited_mark_grid:
  assumes "length vis = nat (w * h)" "inGrid w h n" "inGrid w h p"
  shows "isVisited (markVisited vis (idx w n)) (idx w p) \<longleftrightarrow> p = n \<or> isVisited vis (idx w p)"
proof -
  from idx_range [OF assms(2)] assms(1) have r: "0 \<le> idx w n" "nat (idx w n) < length vis"
    by auto
  show ?thesis
    using isVisited_mark [OF r, of "idx w p"] idx_inj [OF assms(3,2)] by auto
qed

lemma pushIf_inv:
  assumes inv: "qvInv w h ok V0 R queue vis"
    and r: "inGrid w h n \<and> ok n \<and> n \<notin> V0 \<longrightarrow> n \<in> R"
  shows "qvInv w h ok V0 R (fst (pushIf w h ok (queue, vis) n)) (snd (pushIf w h ok (queue, vis) n)) \<and>
         (\<exists>new. fst (pushIf w h ok (queue, vis) n) = queue @ new) \<and>
         (inGrid w h n \<and> ok n \<longrightarrow> isVisited (snd (pushIf w h ok (queue, vis) n)) (idx w n))"
proof (cases "inGrid w h n \<and> \<not> isVisited vis (idx w n) \<and> ok n")
  case True
  then have g: "inGrid w h n" and nv: "\<not> isVisited vis (idx w n)" and okn: "ok n" by auto
  from inv have len: "length vis = nat (w * h)" by (rule qvInv_simple)
  from qvInv_visited [OF inv g] nv have fresh: "n \<notin> V0" "n \<notin> set queue" by auto
  have p: "pushIf w h ok (queue, vis) n = (queue @ [n], markVisited vis (idx w n))"
    using True by (simp add: pushIf_def)
  have c1: "length (markVisited vis (idx w n)) = nat (w * h)" using len by simp
  have c2: "distinct (queue @ [n])" using qvInv_simple(2) [OF inv] fresh by simp
  have c3: "inGrid w h q \<and> ok q \<and> q \<in> R \<and> q \<notin> V0" if "q \<in> set (queue @ [n])" for q
  proof (cases "q = n")
    case True
    then show ?thesis using g okn r fresh by blast
  next
    case False
    with that have "q \<in> set queue" by simp
    then show ?thesis using qvInv_queue [OF inv] by blast
  qed
  have c4: "isVisited (markVisited vis (idx w n)) (idx w p) \<longleftrightarrow> p \<in> V0 \<or> p \<in> set (queue @ [n])"
    if gp: "inGrid w h p" for p
    using isVisited_mark_grid [OF len g gp] qvInv_visited [OF inv gp] by auto
  have "qvInv w h ok V0 R (queue @ [n]) (markVisited vis (idx w n))"
    unfolding qvInv_def using c1 c2 c3 c4 by blast
  moreover have "isVisited (markVisited vis (idx w n)) (idx w n)"
    using isVisited_mark_grid [OF len g g] by simp
  ultimately show ?thesis by (simp add: p)
next
  case False
  then have p: "pushIf w h ok (queue, vis) n = (queue, vis)" by (simp add: pushIf_def)
  show ?thesis using inv False by (auto simp: p)
qed

lemma pushes_inv:
  assumes "qvInv w h ok V0 R queue vis"
    and "\<forall>n \<in> set ns. inGrid w h n \<and> ok n \<and> n \<notin> V0 \<longrightarrow> n \<in> R"
  shows "qvInv w h ok V0 R (fst (foldl (pushIf w h ok) (queue, vis) ns))
            (snd (foldl (pushIf w h ok) (queue, vis) ns)) \<and>
         (\<exists>new. fst (foldl (pushIf w h ok) (queue, vis) ns) = queue @ new) \<and>
         (\<forall>n \<in> set ns. inGrid w h n \<and> ok n \<longrightarrow>
            isVisited (snd (foldl (pushIf w h ok) (queue, vis) ns)) (idx w n))"
  using assms
proof (induction ns arbitrary: queue vis)
  case Nil
  then show ?case by simp
next
  case (Cons n ns)
  obtain q1 v1 where p: "pushIf w h ok (queue, vis) n = (q1, v1)" by (cases "pushIf w h ok (queue, vis) n")
  from pushIf_inv [OF Cons.prems(1), of n] Cons.prems(2) p
  have i1: "qvInv w h ok V0 R q1 v1" and pre1: "\<exists>new. q1 = queue @ new"
    and vn: "inGrid w h n \<and> ok n \<longrightarrow> isVisited v1 (idx w n)"
    by auto
  from Cons.IH [OF i1] Cons.prems(2)
  have i2: "qvInv w h ok V0 R (fst (foldl (pushIf w h ok) (q1, v1) ns))
            (snd (foldl (pushIf w h ok) (q1, v1) ns))"
    and pre2: "\<exists>new. fst (foldl (pushIf w h ok) (q1, v1) ns) = q1 @ new"
    and vs: "\<forall>n \<in> set ns. inGrid w h n \<and> ok n \<longrightarrow>
            isVisited (snd (foldl (pushIf w h ok) (q1, v1) ns)) (idx w n)"
    by auto
  have mono: "isVisited (snd (foldl (pushIf w h ok) (q1, v1) ns)) (idx w n)" if "inGrid w h n" "ok n"
  proof -
    from vn that have "isVisited v1 (idx w n)" by simp
    with qvInv_visited [OF i1 that(1)] have "n \<in> V0 \<or> n \<in> set q1" by simp
    with pre2 have "n \<in> V0 \<or> n \<in> set (fst (foldl (pushIf w h ok) (q1, v1) ns))" by auto
    with qvInv_visited [OF i2 that(1)] show ?thesis by simp
  qed
  show ?case
    using i2 pre1 pre2 vs mono by (auto simp: p)
qed


definition fillInv ::
  "int \<Rightarrow> int \<Rightarrow> (pos \<Rightarrow> bool) \<Rightarrow> pos set \<Rightarrow> pos set \<Rightarrow> pos list \<Rightarrow> nat \<Rightarrow> u8 list \<Rightarrow> bool" where
  "fillInv width height ok V0 S queue head visited \<longleftrightarrow>
     qvInv width height ok V0 (region width height ok S) queue visited \<and>
     head \<le> length queue \<and> S \<subseteq> set queue \<and>
     (\<forall>i < head. \<forall>n \<in> set (neighbours (queue ! i)).
        inGrid width height n \<and> ok n \<longrightarrow> isVisited visited (idx width n))"

lemma region_step:
  assumes "c \<in> region w h ok S" "inGrid w h c" "ok c" "n \<in> set (neighbours c)" "inGrid w h n" "ok n"
  shows "n \<in> region w h ok S"
proof -
  from assms(1) obtain s where s: "s \<in> S" "(s, c) \<in> (link w h ok)\<^sup>*" by (auto simp: region_def)
  have "(c, n) \<in> link w h ok" using assms(2-) by (simp add: link_def)
  with s(2) have "(s, n) \<in> (link w h ok)\<^sup>*" by (rule rtrancl_into_rtrancl)
  with s(1) show ?thesis by (auto simp: region_def)
qed

lemma fill_step_inv:
  assumes inv: "fillInv w h ok V0 S queue head vis" and lt: "head < length queue"
  shows "fillInv w h ok V0 S
           (fst (foldl (pushIf w h ok) (queue, vis) (neighbours (queue ! head)))) (head + 1)
           (snd (foldl (pushIf w h ok) (queue, vis) (neighbours (queue ! head)))) \<and>
         (\<exists>new. fst (foldl (pushIf w h ok) (queue, vis) (neighbours (queue ! head))) = queue @ new)"
proof -
  let ?c = "queue ! head"
  let ?r = "foldl (pushIf w h ok) (queue, vis) (neighbours ?c)"
  from inv have qv: "qvInv w h ok V0 (region w h ok S) queue vis"
    and sub: "S \<subseteq> set queue"
    and closed: "\<forall>i < head. \<forall>n \<in> set (neighbours (queue ! i)).
        inGrid w h n \<and> ok n \<longrightarrow> isVisited vis (idx w n)"
    by (auto simp: fillInv_def)
  have cq: "?c \<in> set queue" using lt by simp
  note cfacts = qvInv_queue [OF qv cq]
  have nb: "\<forall>n \<in> set (neighbours ?c). inGrid w h n \<and> ok n \<and> n \<notin> V0 \<longrightarrow> n \<in> region w h ok S"
    using region_step [OF cfacts(3) cfacts(1) cfacts(2)] by blast
  from pushes_inv [OF qv nb] obtain new where
    qv': "qvInv w h ok V0 (region w h ok S) (fst ?r) (snd ?r)"
    and pre: "fst ?r = queue @ new"
    and vis': "\<forall>n \<in> set (neighbours ?c). inGrid w h n \<and> ok n \<longrightarrow> isVisited (snd ?r) (idx w n)"
    by blast
  have mono: "isVisited (snd ?r) (idx w p)" if "inGrid w h p" "isVisited vis (idx w p)" for p
    using qvInv_visited [OF qv that(1)] qvInv_visited [OF qv' that(1)] that(2) pre by auto
  have nth: "fst ?r ! i = queue ! i" if "i < length queue" for i
    using that by (simp add: pre nth_append)
  have closed': "\<forall>i < head + 1. \<forall>n \<in> set (neighbours (fst ?r ! i)).
        inGrid w h n \<and> ok n \<longrightarrow> isVisited (snd ?r) (idx w n)"
  proof (intro allI impI ballI)
    fix i n assume i: "i < head + 1" and n: "n \<in> set (neighbours (fst ?r ! i))"
      and g: "inGrid w h n \<and> ok n"
    have il: "i < length queue" using i lt by simp
    show "isVisited (snd ?r) (idx w n)"
    proof (cases "i = head")
      case True
      with n nth [OF il] vis' g show ?thesis by simp
    next
      case False
      with i have "i < head" by simp
      with closed n nth [OF il] g have "isVisited vis (idx w n)" by simp
      with mono g show ?thesis by blast
    qed
  qed
  have "head + 1 \<le> length (fst ?r)" using lt by (simp add: pre)
  moreover have "S \<subseteq> set (fst ?r)" using sub by (auto simp: pre)
  ultimately have "fillInv w h ok V0 S (fst ?r) (head + 1) (snd ?r)"
    using qv' closed' unfolding fillInv_def by blast
  with pre show ?thesis by blast
qed

lemma fill_exit:
  assumes inv: "fillInv w h ok V0 S queue (length queue) vis"
    and disj: "V0 \<inter> region w h ok S = {}"
  shows "set queue = region w h ok S"
proof
  from inv have qv: "qvInv w h ok V0 (region w h ok S) queue vis" by (simp add: fillInv_def)
  show "set queue \<subseteq> region w h ok S" using qvInv_queue(3) [OF qv] by blast
  show "region w h ok S \<subseteq> set queue"
  proof
    fix q assume "q \<in> region w h ok S"
    then obtain s where s: "s \<in> S" and path: "(s, q) \<in> (link w h ok)\<^sup>*" by (auto simp: region_def)
    from path show "q \<in> set queue"
    proof (induction rule: rtrancl_induct)
      case base
      then show ?case using inv s by (auto simp: fillInv_def)
    next
      case (step y z)
      then obtain i where i: "i < length queue" "queue ! i = y" by (auto simp: in_set_conv_nth)
      from step(2) have z: "inGrid w h z" "ok z" "z \<in> set (neighbours y)" by (auto simp: link_def)
      from inv i z have "isVisited vis (idx w z)" by (auto simp: fillInv_def)
      with qvInv_visited [OF qv z(1)] have "z \<in> V0 \<or> z \<in> set queue" by simp
      moreover have "z \<in> region w h ok S"
        using s step(1,2) by (auto simp: region_def intro: rtrancl_into_rtrancl)
      ultimately show ?case using disj by auto
    qed
  qed
qed

lemma fill_length_bound:
  assumes "qvInv w h ok V0 R queue vis"
  shows "length queue \<le> card {p. inGrid w h p}"
proof -
  have "length queue = card (set queue)"
    using qvInv_simple(2) [OF assms] by (simp add: distinct_card)
  also have "\<dots> \<le> card {p. inGrid w h p}"
    using qvInv_queue(1) [OF assms] by (intro card_mono finite_grid) auto
  finally show ?thesis .
qed


definition fgAt :: "u8 list \<Rightarrow> DetectOptions \<Rightarrow> int \<Rightarrow> pos \<Rightarrow> bool" where
  "fgAt data options width p \<longleftrightarrow> \<not> isBackground data options (idx width p * 4)"

lemma tryNeighbour_pushIf:
  "tryNeighbour data options w h c qv d =
     pushIf w h (fgAt data options w) qv (fst c + fst d, snd c + snd d)"
  by (cases c; cases qv; cases d)
    (auto simp: tryNeighbour_def pushIf_def Let_def inGrid_def idx_def fgAt_def)

lemma foldl_tryNeighbour:
  "foldl (tryNeighbour data options w h c) qv directions =
     foldl (pushIf w h (fgAt data options w)) qv (neighbours c)"
proof -
  have "tryNeighbour data options w h c =
      (\<lambda>qv d. pushIf w h (fgAt data options w) qv (fst c + fst d, snd c + snd d))"
    by (intro ext) (rule tryNeighbour_pushIf)
  then show ?thesis by (simp add: neighbours_def foldl_map)
qed

definition detInv ::
  "u8 list \<Rightarrow> DetectOptions \<Rightarrow> int \<Rightarrow> int \<Rightarrow> pos set \<Rightarrow> pos \<Rightarrow> FillState \<Rightarrow> bool" where
  "detInv data options width height V0 p0 s \<longleftrightarrow>
     fillInv width height (fgAt data options width) V0 {p0} (fs_queue s) (fs_head s) (fs_visited s) \<and>
     fs_minX s = Min (fst ` insert p0 (set (take (fs_head s) (fs_queue s)))) \<and>
     fs_minY s = Min (snd ` insert p0 (set (take (fs_head s) (fs_queue s)))) \<and>
     fs_maxX s = Max (fst ` insert p0 (set (take (fs_head s) (fs_queue s)))) \<and>
     fs_maxY s = Max (snd ` insert p0 (set (take (fs_head s) (fs_queue s))))"

lemma fillStep_inv:
  assumes inv: "detInv data options w h V0 p0 s" and lt: "fs_head s < length (fs_queue s)"
  shows "detInv data options w h V0 p0 (fillStep data options w h s) \<and>
         fs_head (fillStep data options w h s) = fs_head s + 1"
proof -
  let ?ok = "fgAt data options w"
  let ?c = "fs_queue s ! fs_head s"
  let ?r = "foldl (pushIf w h ?ok) (fs_queue s, fs_visited s) (neighbours ?c)"
  let ?T = "insert p0 (set (take (fs_head s) (fs_queue s)))"
  obtain cx cy where c: "?c = (cx, cy)" by (cases ?c)
  have st: "fillStep data options w h s =
      \<lparr> fs_queue = fst ?r, fs_head = fs_head s + 1, fs_visited = snd ?r,
        fs_minX = min (fs_minX s) cx, fs_minY = min (fs_minY s) cy,
        fs_maxX = max (fs_maxX s) cx, fs_maxY = max (fs_maxY s) cy \<rparr>"
    by (simp add: fillStep_def c [symmetric] foldl_tryNeighbour) (simp add: c case_prod_unfold)
  from inv have fi: "fillInv w h ?ok V0 {p0} (fs_queue s) (fs_head s) (fs_visited s)"
    by (simp add: detInv_def)
  from fill_step_inv [OF fi lt] obtain new where
    fi': "fillInv w h ?ok V0 {p0} (fst ?r) (fs_head s + 1) (snd ?r)"
    and pre: "fst ?r = fs_queue s @ new"
    by blast
  let ?s' = "fillStep data options w h s"
  have sel: "fs_queue ?s' = fst ?r" "fs_head ?s' = fs_head s + 1" "fs_visited ?s' = snd ?r"
    "fs_minX ?s' = min (fs_minX s) (fst ?c)" "fs_minY ?s' = min (fs_minY s) (snd ?c)"
    "fs_maxX ?s' = max (fs_maxX s) (fst ?c)" "fs_maxY ?s' = max (fs_maxY s) (snd ?c)"
    by (simp_all add: st c)
  have tk: "set (take (fs_head s + 1) (fst ?r)) = insert ?c (set (take (fs_head s) (fs_queue s)))"
    using lt by (simp add: pre take_Suc_conv_app_nth)
  have ins: "insert p0 (set (take (fs_head ?s') (fs_queue ?s'))) = insert ?c ?T"
    unfolding sel tk by auto
  have mn: "Min (f ` insert ?c ?T) = min (Min (f ` ?T)) (f ?c)"
    and mx: "Max (f ` insert ?c ?T) = max (Max (f ` ?T)) (f ?c)" for f :: "pos \<Rightarrow> int"
    by (simp_all add: min.commute max.commute)
  from inv have old:
    "fs_minX s = Min (fst ` ?T)" "fs_minY s = Min (snd ` ?T)"
    "fs_maxX s = Max (fst ` ?T)" "fs_maxY s = Max (snd ` ?T)"
    by (simp_all add: detInv_def)
  have "fs_minX ?s' = Min (fst ` insert p0 (set (take (fs_head ?s') (fs_queue ?s'))))"
    "fs_minY ?s' = Min (snd ` insert p0 (set (take (fs_head ?s') (fs_queue ?s'))))"
    "fs_maxX ?s' = Max (fst ` insert p0 (set (take (fs_head ?s') (fs_queue ?s'))))"
    "fs_maxY ?s' = Max (snd ` insert p0 (set (take (fs_head ?s') (fs_queue ?s'))))"
    unfolding ins mn mx by (simp_all only: sel old)
  moreover have "fillInv w h ?ok V0 {p0} (fs_queue ?s') (fs_head ?s') (fs_visited ?s')"
    using fi' by (simp only: sel)
  ultimately show ?thesis
    unfolding detInv_def using sel(2) by blast
qed

lemma floodFill_total:
  assumes "detInv data options w h V0 p0 s"
  shows "\<exists>s'. floodFill data options w h s = Some s' \<and> detInv data options w h V0 p0 s' \<and>
              fs_head s' = length (fs_queue s')"
  using assms
proof (induction "card {p. inGrid w h p} - fs_head s" arbitrary: s rule: less_induct)
  case less
  show ?case
  proof (cases "fs_head s < length (fs_queue s)")
    case True
    from fillStep_inv [OF less.prems True]
    have inv': "detInv data options w h V0 p0 (fillStep data options w h s)"
      and hd': "fs_head (fillStep data options w h s) = fs_head s + 1" by auto
    from less.prems have "qvInv w h (fgAt data options w) V0 (region w h (fgAt data options w) {p0})
        (fs_queue s) (fs_visited s)"
      by (simp add: detInv_def fillInv_def)
    from fill_length_bound [OF this] True
    have "card {p. inGrid w h p} - fs_head (fillStep data options w h s)
        < card {p. inGrid w h p} - fs_head s"
      by (simp add: hd')
    from less.hyps [OF this inv'] obtain s' where
      "floodFill data options w h (fillStep data options w h s) = Some s'"
      "detInv data options w h V0 p0 s'" "fs_head s' = length (fs_queue s')" by blast
    then show ?thesis using True by (subst floodFill.simps) simp
  next
    case False
    from less.prems have "fs_head s \<le> length (fs_queue s)" by (simp add: detInv_def fillInv_def)
    with False have "fs_head s = length (fs_queue s)" by simp
    then show ?thesis using less.prems by (subst floodFill.simps) simp
  qed
qed


definition component :: "u8 list \<Rightarrow> DetectOptions \<Rightarrow> int \<Rightarrow> int \<Rightarrow> pos \<Rightarrow> pos set" where
  "component data options width height p = region width height (fgAt data options width) {p}"

lemma region_self: "p \<in> region w h ok {p}"
  by (simp add: region_def)

lemma region_sym: "q \<in> region w h ok {p} \<Longrightarrow> p \<in> region w h ok {q}"
  by (auto simp: region_def dest: link_rtrancl_sym)

lemma region_trans: "q \<in> region w h ok {p} \<Longrightarrow> r \<in> region w h ok {q} \<Longrightarrow> r \<in> region w h ok {p}"
  by (auto simp: region_def)

lemma region_eq: "q \<in> region w h ok {p} \<Longrightarrow> region w h ok {q} = region w h ok {p}"
  by (blast intro: region_trans region_sym)

lemma region_members:
  assumes "q \<in> region w h ok {p}" "q \<noteq> p"
  shows "inGrid w h q \<and> ok q \<and> inGrid w h p \<and> ok p"
proof -
  from assms(1) have "(p, q) \<in> (link w h ok)\<^sup>*" by (simp add: region_def)
  with assms(2) have a: "(p, q) \<in> (link w h ok)\<^sup>+" by (simp add: rtrancl_eq_or_trancl)
  from a obtain z where "(z, q) \<in> link w h ok" by (auto dest: tranclD2)
  moreover from a obtain z' where "(p, z') \<in> link w h ok" by (auto dest: tranclD)
  ultimately show ?thesis by (auto simp: link_def)
qed

lemma region_subset_grid:
  assumes "inGrid w h p" "ok p"
  shows "region w h ok {p} \<subseteq> {q. inGrid w h q \<and> ok q}"
  using region_members [of _ w h ok p] assms by blast

lemma finite_region:
  assumes "inGrid w h p" "ok p"
  shows "finite (region w h ok {p})"
proof -
  have "region w h ok {p} \<subseteq> {q. inGrid w h q}"
    using region_subset_grid [of w h p ok] assms by blast
  then show ?thesis by (rule finite_subset) (rule finite_grid)
qed


definition bboxOf :: "pos set \<Rightarrow> Box" where
  "bboxOf C = \<lparr> box_x = Min (fst ` C), box_y = Min (snd ` C),
                box_width = Max (fst ` C) - Min (fst ` C) + 1,
                box_height = Max (snd ` C) - Min (snd ` C) + 1 \<rparr>"

definition bigEnough :: "pos set \<Rightarrow> bool" where
  "bigEnough C \<longleftrightarrow> Max (fst ` C) - Min (fst ` C) > 5 \<and> Max (snd ` C) - Min (snd ` C) > 5"

definition firstOf :: "u8 list \<Rightarrow> DetectOptions \<Rightarrow> int \<Rightarrow> int \<Rightarrow> pos \<Rightarrow> bool" where
  "firstOf data options width height p \<longleftrightarrow>
     (\<forall>q \<in> component data options width height p. idx width p \<le> idx width q)"

definition scanInv ::
  "u8 list \<Rightarrow> DetectOptions \<Rightarrow> int \<Rightarrow> int \<Rightarrow> pos set \<Rightarrow> ScanState \<Rightarrow> bool" where
  "scanInv data options width height D st \<longleftrightarrow>
     length (sc_visited st) = nat (width * height) \<and>
     (\<forall>p. inGrid width height p \<longrightarrow>
        (isVisited (sc_visited st) (idx width p) \<longleftrightarrow>
           p \<in> D \<or> (\<exists>d \<in> D. fgAt data options width d \<and> p \<in> component data options width height d))) \<and>
     set (sc_enqueued st) =
        {p. \<exists>d \<in> D. fgAt data options width d \<and> p \<in> component data options width height d} \<and>
     distinct (sc_enqueued st)"

lemma scanInv_visited:
  assumes "scanInv data options w h D st" "inGrid w h p"
  shows "isVisited (sc_visited st) (idx w p) \<longleftrightarrow>
           p \<in> D \<or> (\<exists>d \<in> D. fgAt data options w d \<and> p \<in> component data options w h d)"
  using assms unfolding scanInv_def by blast

text \<open>The three cases of one step of the scan.\<close>

lemma scanPixel_visited:
  assumes inv: "scanInv data options w h D st" and g: "inGrid w h p" and DG: "D \<subseteq> {q. inGrid w h q}"
    and v: "isVisited (sc_visited st) (idx w p)"
  shows "scanPixel data options w h p st = Some st \<and> scanInv data options w h (insert p D) st"
proof -
  let ?fg = "fgAt data options w"
  let ?comp = "component data options w h"
  have run: "scanPixel data options w h p st = Some st"
    using v by (cases p) (simp add: scanPixel_def idx_def Let_def)
  from scanInv_visited [OF inv g] v
  have cov: "p \<in> D \<or> (\<exists>d \<in> D. ?fg d \<and> p \<in> ?comp d)" by simp
  have same: "(\<exists>d \<in> insert p D. ?fg d \<and> q \<in> ?comp d) \<longleftrightarrow> (\<exists>d \<in> D. ?fg d \<and> q \<in> ?comp d)" for q
  proof (cases "p \<in> D")
    case True
    then show ?thesis by (simp add: insert_absorb)
  next
    case False
    with cov obtain d where d: "d \<in> D" "?fg d" "p \<in> ?comp d" by blast
    then have "?comp p = ?comp d" by (simp add: component_def region_eq)
    with d show ?thesis by auto
  qed
  have vis: "isVisited (sc_visited st) (idx w q) \<longleftrightarrow>
      q \<in> insert p D \<or> (\<exists>d \<in> insert p D. ?fg d \<and> q \<in> ?comp d)" if gq: "inGrid w h q" for q
  proof (cases "q = p")
    case True
    then show ?thesis using v by simp
  next
    case False
    then show ?thesis using scanInv_visited [OF inv gq] same [of q] by simp
  qed
  have "scanInv data options w h (insert p D) st"
    unfolding scanInv_def using inv vis same by (simp add: scanInv_def)
  with run show ?thesis by simp
qed

lemma scanPixel_background:
  assumes inv: "scanInv data options w h D st" and g: "inGrid w h p"
    and nv: "\<not> isVisited (sc_visited st) (idx w p)" and bg: "\<not> fgAt data options w p"
  shows "scanPixel data options w h p st = Some (st\<lparr>sc_visited := markVisited (sc_visited st) (idx w p)\<rparr>) \<and>
         scanInv data options w h (insert p D) (st\<lparr>sc_visited := markVisited (sc_visited st) (idx w p)\<rparr>)"
proof -
  let ?fg = "fgAt data options w"
  let ?comp = "component data options w h"
  let ?st' = "st\<lparr>sc_visited := markVisited (sc_visited st) (idx w p)\<rparr>"
  have run: "scanPixel data options w h p st = Some ?st'"
    using nv bg by (cases p) (simp add: scanPixel_def idx_def Let_def fgAt_def)
  from inv have len: "length (sc_visited st) = nat (w * h)" by (simp add: scanInv_def)
  have same: "(\<exists>d \<in> insert p D. ?fg d \<and> q \<in> ?comp d) \<longleftrightarrow> (\<exists>d \<in> D. ?fg d \<and> q \<in> ?comp d)" for q
    using bg by auto
  have vis: "isVisited (sc_visited ?st') (idx w q) \<longleftrightarrow>
      q \<in> insert p D \<or> (\<exists>d \<in> insert p D. ?fg d \<and> q \<in> ?comp d)" if gq: "inGrid w h q" for q
    using isVisited_mark_grid [OF len g gq] scanInv_visited [OF inv gq] same [of q] by auto
  have "scanInv data options w h (insert p D) ?st'"
    unfolding scanInv_def using inv vis same len by (simp add: scanInv_def)
  with run show ?thesis by simp
qed


lemma scanPixel_foreground:
  assumes inv: "scanInv data options w h D st" and g: "inGrid w h p" and DG: "D \<subseteq> {q. inGrid w h q}"
    and nv: "\<not> isVisited (sc_visited st) (idx w p)" and fg: "fgAt data options w p"
  shows "\<exists>st'. scanPixel data options w h p st = Some st' \<and>
           scanInv data options w h (insert p D) st' \<and>
           sc_boundingBoxes st' = sc_boundingBoxes st @
             (if bigEnough (component data options w h p)
              then [bboxOf (component data options w h p)] else []) \<and>
           (\<exists>q. sc_enqueued st' = sc_enqueued st @ q \<and> set q = component data options w h p)"
proof -
  let ?fg = "fgAt data options w"
  let ?comp = "component data options w h"
  let ?vis = "sc_visited st"
  let ?V0 = "{q. inGrid w h q \<and> isVisited ?vis (idx w q)}"
  obtain x y where p: "p = (x, y)" by (cases p)
  let ?s0 = "\<lparr> fs_queue = [(x, y)], fs_head = 0, fs_visited = markVisited ?vis (y * w + x),
               fs_minX = x, fs_minY = y, fs_maxX = x, fs_maxY = y \<rparr>"
  have ip: "idx w p = y * w + x" by (simp add: idx_def p)
  from inv have len: "length ?vis = nat (w * h)" by (simp add: scanInv_def)
  have covered: "q \<in> ?V0 \<longleftrightarrow> q \<in> D \<or> (\<exists>d \<in> D. ?fg d \<and> q \<in> ?comp d)" if "inGrid w h q" for q
    using scanInv_visited [OF inv that] that by simp
  have disj: "?V0 \<inter> region w h ?fg {p} = {}"
  proof (rule ccontr)
    assume "?V0 \<inter> region w h ?fg {p} \<noteq> {}"
    then obtain q where q: "inGrid w h q" "isVisited ?vis (idx w q)" "q \<in> region w h ?fg {p}"
      by auto
    from q(2) nv have ne: "q \<noteq> p" by auto
    from region_members [OF q(3) ne] have fq: "?fg q" by simp
    have pq: "p \<in> region w h ?fg {q}" using q(3) by (rule region_sym)
    from scanInv_visited [OF inv q(1)] q(2)
    consider "q \<in> D" | d where "d \<in> D" "?fg d" "q \<in> ?comp d" by auto
    then have "\<exists>d \<in> D. ?fg d \<and> p \<in> ?comp d"
    proof cases
      case 1
      with fq pq show ?thesis by (auto simp: component_def)
    next
      case 2
      from 2(3) pq have "p \<in> ?comp d" unfolding component_def by (rule region_trans)
      with 2 show ?thesis by blast
    qed
    with scanInv_visited [OF inv g] nv show False by simp
  qed
  have qv0: "qvInv w h ?fg ?V0 (region w h ?fg {p}) [p] (markVisited ?vis (idx w p))"
    unfolding qvInv_def
    using len g fg nv region_self [of p w h ?fg] isVisited_mark_grid [OF len g]
    by auto
  have d0: "detInv data options w h ?V0 p ?s0"
    unfolding detInv_def fillInv_def using qv0 by (simp add: p idx_def)
  from floodFill_total [OF d0] obtain s' where
    run: "floodFill data options w h ?s0 = Some s'"
    and d': "detInv data options w h ?V0 p s'"
    and hd: "fs_head s' = length (fs_queue s')" by blast
  from d' have fi: "fillInv w h ?fg ?V0 {p} (fs_queue s') (length (fs_queue s')) (fs_visited s')"
    by (simp add: detInv_def hd)
  from fill_exit [OF fi disj] have qs: "set (fs_queue s') = ?comp p"
    by (simp add: component_def)
  from fi have qv': "qvInv w h ?fg ?V0 (region w h ?fg {p}) (fs_queue s') (fs_visited s')"
    by (simp add: fillInv_def)
  have pin: "p \<in> set (fs_queue s')" using qs region_self [of p w h ?fg] by (simp add: component_def)
  have T: "insert p (set (take (fs_head s') (fs_queue s'))) = ?comp p"
    using pin qs by (simp add: hd insert_absorb)
  from d' have mm: "fs_minX s' = Min (fst ` ?comp p)" "fs_minY s' = Min (snd ` ?comp p)"
    "fs_maxX s' = Max (fst ` ?comp p)" "fs_maxY s' = Max (snd ` ?comp p)"
    unfolding detInv_def T by simp_all
  let ?st' = "\<lparr> sc_visited = fs_visited s',
      sc_boundingBoxes = sc_boundingBoxes st @
             (if bigEnough (?comp p) then [bboxOf (?comp p)] else []),
      sc_enqueued = sc_enqueued st @ fs_queue s' \<rparr>"
  have res: "scanPixel data options w h p st = Some ?st'"
    using nv fg run
    by (simp add: scanPixel_def p idx_def Let_def fgAt_def mm [unfolded p] bigEnough_def bboxOf_def)
  have vis: "isVisited (fs_visited s') (idx w q) \<longleftrightarrow>
      q \<in> insert p D \<or> (\<exists>d \<in> insert p D. ?fg d \<and> q \<in> ?comp d)" if gq: "inGrid w h q" for q
  proof -
    have "isVisited (fs_visited s') (idx w q) \<longleftrightarrow> q \<in> ?V0 \<or> q \<in> ?comp p"
      using qvInv_visited [OF qv' gq] qs by simp
    also have "\<dots> \<longleftrightarrow> (q \<in> D \<or> (\<exists>d \<in> D. ?fg d \<and> q \<in> ?comp d)) \<or> q \<in> ?comp p"
      using covered [OF gq] by simp
    also have "\<dots> \<longleftrightarrow> q \<in> insert p D \<or> (\<exists>d \<in> insert p D. ?fg d \<and> q \<in> ?comp d)"
      using fg region_self [of p w h ?fg] by (auto simp: component_def)
    finally show ?thesis .
  qed
  have enq: "set (sc_enqueued st @ fs_queue s') =
      {q. \<exists>d \<in> insert p D. ?fg d \<and> q \<in> ?comp d}"
    using inv qs fg by (auto simp: scanInv_def)
  have old_in: "q \<in> ?V0" if "q \<in> set (sc_enqueued st)" for q
  proof -
    from that inv obtain d where d: "d \<in> D" "?fg d" "q \<in> ?comp d" by (auto simp: scanInv_def)
    from d(1) DG have gd: "inGrid w h d" by auto
    from region_subset_grid [of w h d ?fg, OF gd d(2)] d(3) have "inGrid w h q"
      by (auto simp: component_def)
    with covered [of q] d show ?thesis by blast
  qed
  have dis: "distinct (sc_enqueued st @ fs_queue s')"
    using inv qvInv_simple(2) [OF qv'] old_in disj qs
    by (auto simp: scanInv_def component_def)
  have "scanInv data options w h (insert p D) ?st'"
    unfolding scanInv_def using vis enq dis qvInv_simple(1) [OF qv'] by simp
  with res qs show ?thesis by auto
qed


lemma set_pixelOrder: "set (pixelOrder w h) = {p. inGrid w h p}"
  by (auto simp: pixelOrder_def inGrid_def)

lemma sorted_wrt_concat:
  "sorted_wrt R (concat xss) \<longleftrightarrow>
     (\<forall>xs \<in> set xss. sorted_wrt R xs) \<and>
     sorted_wrt (\<lambda>xs ys. \<forall>x \<in> set xs. \<forall>y \<in> set ys. R x y) xss"
  by (induction xss) (auto simp: sorted_wrt_append)

lemma idx_row_less:
  assumes "0 \<le> x" "x < w" "0 \<le> x'" "y < y'"
  shows "idx w (x, y) < idx w (x', y')"
proof -
  have "y * w + x < (y + 1) * w" using assms by (simp add: algebra_simps)
  also have "\<dots> \<le> y' * w" using assms by (intro mult_right_mono) auto
  also have "\<dots> \<le> y' * w + x'" using assms by simp
  finally show ?thesis by (simp add: idx_def)
qed

lemma sorted_pixelOrder: "sorted_wrt (\<lambda>a b. idx w a < idx w b) (pixelOrder w h)"
proof -
  have rows: "sorted_wrt (\<lambda>a b. idx w a < idx w b) (map (\<lambda>x. (x, y)) [0..w - 1])" for y
    by (simp add: sorted_wrt_map idx_def)
  have "sorted_wrt (\<lambda>y y'. \<forall>a \<in> set (map (\<lambda>x. (x, y)) [0..w - 1]).
            \<forall>b \<in> set (map (\<lambda>x. (x, y')) [0..w - 1]). idx w a < idx w b) [0..h - 1]"
    by (rule sorted_wrt_mono_rel [OF _ sorted_wrt_upto]) (auto intro: idx_row_less)
  then show ?thesis
    unfolding pixelOrder_def sorted_wrt_concat using rows by (auto simp: sorted_wrt_map)
qed

lemma pixelOrder_prefix:
  assumes "pre @ p # ps = pixelOrder w h"
  shows "set pre = {q. inGrid w h q \<and> idx w q < idx w p}" "inGrid w h p"
proof -
  have s: "sorted_wrt (\<lambda>a b. idx w a < idx w b) (pre @ p # ps)"
    using sorted_pixelOrder [of w h] assms by simp
  have all: "set (pre @ p # ps) = {q. inGrid w h q}"
    using set_pixelOrder [of w h] assms by simp
  from s have lo: "\<forall>q \<in> set pre. idx w q < idx w p" and hi: "\<forall>q \<in> set ps. idx w p < idx w q"
    by (auto simp: sorted_wrt_append)
  show "inGrid w h p" using all by auto
  show "set pre = {q. inGrid w h q \<and> idx w q < idx w p}"
  proof (intro set_eqI iffI)
    fix q assume "q \<in> set pre"
    then show "q \<in> {q. inGrid w h q \<and> idx w q < idx w p}" using lo all by auto
  next
    fix q assume "q \<in> {q. inGrid w h q \<and> idx w q < idx w p}"
    then have "q \<in> set (pre @ p # ps)" "idx w q < idx w p" using all by auto
    then show "q \<in> set pre" using hi by auto
  qed
qed

lemma first_iff_unvisited:
  assumes inv: "scanInv data options w h D st" and g: "inGrid w h p"
    and D: "D = {q. inGrid w h q \<and> idx w q < idx w p}" and fg: "fgAt data options w p"
  shows "\<not> isVisited (sc_visited st) (idx w p) \<longleftrightarrow> firstOf data options w h p"
proof
  let ?fg = "fgAt data options w"
  let ?comp = "component data options w h"
  assume nv: "\<not> isVisited (sc_visited st) (idx w p)"
  show "firstOf data options w h p"
    unfolding firstOf_def
  proof (intro ballI, rule ccontr)
    fix q assume q: "q \<in> ?comp p" and "\<not> idx w p \<le> idx w q"
    then have lt: "idx w q < idx w p" by simp
    then have ne: "q \<noteq> p" by auto
    from region_members [OF q [unfolded component_def] ne] have gq: "inGrid w h q" "?fg q" by auto
    have "q \<in> D" using gq lt by (simp add: D)
    moreover have "p \<in> ?comp q" using q unfolding component_def by (rule region_sym)
    ultimately show False using scanInv_visited [OF inv g] nv gq by blast
  qed
next
  let ?fg = "fgAt data options w"
  let ?comp = "component data options w h"
  assume f: "firstOf data options w h p"
  show "\<not> isVisited (sc_visited st) (idx w p)"
  proof
    assume "isVisited (sc_visited st) (idx w p)"
    with scanInv_visited [OF inv g] have "p \<in> D \<or> (\<exists>d \<in> D. ?fg d \<and> p \<in> ?comp d)" by simp
    moreover have "p \<notin> D" by (simp add: D)
    ultimately obtain d where d: "d \<in> D" "p \<in> ?comp d" by blast
    from d(2) have "d \<in> ?comp p" unfolding component_def by (rule region_sym)
    with f have "idx w p \<le> idx w d" by (simp add: firstOf_def)
    with d(1) show False by (simp add: D)
  qed
qed

definition keep :: "u8 list \<Rightarrow> DetectOptions \<Rightarrow> int \<Rightarrow> int \<Rightarrow> pos \<Rightarrow> bool" where
  "keep data options width height p \<longleftrightarrow>
     fgAt data options width p \<and> firstOf data options width height p \<and>
     bigEnough (component data options width height p)"

lemma scanLoop_run:
  assumes "pre @ ps = pixelOrder w h" "scanInv data options w h (set pre) st"
  shows "\<exists>st'. scanLoop data options w h ps st = Some st' \<and>
           scanInv data options w h (set (pre @ ps)) st' \<and>
           sc_boundingBoxes st' = sc_boundingBoxes st @
             map (\<lambda>p. bboxOf (component data options w h p)) (filter (keep data options w h) ps)"
  using assms
proof (induction ps arbitrary: pre st)
  case Nil
  then show ?case by simp
next
  case (Cons p ps)
  note pf = pixelOrder_prefix [OF Cons.prems(1)]
  have DG: "set pre \<subseteq> {q. inGrid w h q}" using pf(1) by auto
  have next_list: "(pre @ [p]) @ ps = pixelOrder w h" using Cons.prems(1) by simp
  have "\<exists>st1. scanPixel data options w h p st = Some st1 \<and>
      scanInv data options w h (set (pre @ [p])) st1 \<and>
      sc_boundingBoxes st1 = sc_boundingBoxes st @
        map (\<lambda>p. bboxOf (component data options w h p)) (filter (keep data options w h) [p])"
  proof (cases "fgAt data options w p")
    case False
    then have nk: "\<not> keep data options w h p" by (simp add: keep_def)
    show ?thesis
    proof (cases "isVisited (sc_visited st) (idx w p)")
      case True
      from scanPixel_visited [OF Cons.prems(2) pf(2) DG True] nk show ?thesis by simp
    next
      case nv: False
      from scanPixel_background [OF Cons.prems(2) pf(2) nv False] nk show ?thesis by simp
    qed
  next
    case fg: True
    note fi = first_iff_unvisited [OF Cons.prems(2) pf(2) pf(1) fg]
    show ?thesis
    proof (cases "isVisited (sc_visited st) (idx w p)")
      case True
      with fi have "\<not> keep data options w h p" by (simp add: keep_def)
      with scanPixel_visited [OF Cons.prems(2) pf(2) DG True] show ?thesis by simp
    next
      case nv: False
      with fi fg have k: "keep data options w h p \<longleftrightarrow> bigEnough (component data options w h p)"
        by (simp add: keep_def)
      from scanPixel_foreground [OF Cons.prems(2) pf(2) DG nv fg] k show ?thesis by auto
    qed
  qed
  then obtain st1 where
    r1: "scanPixel data options w h p st = Some st1"
    and i1: "scanInv data options w h (set (pre @ [p])) st1"
    and b1: "sc_boundingBoxes st1 = sc_boundingBoxes st @
        map (\<lambda>p. bboxOf (component data options w h p)) (filter (keep data options w h) [p])"
    by blast
  from Cons.IH [OF next_list i1] obtain st' where
    "scanLoop data options w h ps st1 = Some st'"
    "scanInv data options w h (set ((pre @ [p]) @ ps)) st'"
    "sc_boundingBoxes st' = sc_boundingBoxes st1 @
        map (\<lambda>p. bboxOf (component data options w h p)) (filter (keep data options w h) ps)"
    by blast
  then show ?case using r1 b1 by simp
qed


definition detect_spec :: "ImageFile \<Rightarrow> DetectOptions \<Rightarrow> Box list" where
  "detect_spec imageFile options =
     map (\<lambda>p. bboxOf (component (img_data imageFile) options (img_width imageFile) (img_height imageFile) p))
       (filter (keep (img_data imageFile) options (img_width imageFile) (img_height imageFile))
          (pixelOrder (img_width imageFile) (img_height imageFile)))"

lemma isVisited_replicate: "\<not> isVisited (replicate n 0) i"
  by (simp add: isVisited_def rd_def)

lemma scanInv_initial:
  "scanInv data options w h {} \<lparr> sc_visited = replicate (nat (w * h)) 0, sc_boundingBoxes = [], sc_enqueued = [] \<rparr>"
  by (simp add: scanInv_def isVisited_replicate)

lemma detectScan_run:
  "\<exists>st. detectScan img options = Some st \<and>
     scanInv (img_data img) options (img_width img) (img_height img)
        {p. inGrid (img_width img) (img_height img) p} st \<and>
     sc_boundingBoxes st = detect_spec img options"
proof -
  let ?w = "img_width img" and ?h = "img_height img" and ?d = "img_data img"
  let ?st0 = "\<lparr> sc_visited = replicate (nat (?w * ?h)) 0, sc_boundingBoxes = [], sc_enqueued = [] \<rparr>"
  have a: "[] @ pixelOrder ?w ?h = pixelOrder ?w ?h" by simp
  have b: "scanInv ?d options ?w ?h (set []) ?st0" using scanInv_initial by simp
  from scanLoop_run [OF a b] show ?thesis
    by (simp add: detectScan_def Let_def detect_spec_def set_pixelOrder)
qed

lemma detect_correct: "detectObjectsFromImage img options = Some (detect_spec img options)"
  using detectScan_run [of img options] by (auto simp: detectObjectsFromImage_def)

text \<open>An image all of whose pixels are foreground is one component, the whole grid.\<close>

lemma grid_connected:
  assumes all: "\<forall>p. inGrid w h p \<longrightarrow> ok p" and g: "inGrid w h p"
  shows "p \<in> region w h ok {(0, 0)}"
proof -
  obtain x y where p: "p = (x, y)" by (cases p)
  from g have b: "0 \<le> x" "x < w" "0 \<le> y" "y < h" by (auto simp: inGrid_def p)
  have row: "int n < w \<Longrightarrow> (int n, 0) \<in> region w h ok {(0, 0)}" for n
  proof (induction n)
    case 0
    then show ?case by (simp add: region_self)
  next
    case (Suc n)
    then have prev: "(int n, 0) \<in> region w h ok {(0, 0)}" by simp
    have g1: "inGrid w h (int n, 0)" "inGrid w h (int (Suc n), 0)"
      using Suc.prems b by (auto simp: inGrid_def)
    have nb: "(int (Suc n), 0) \<in> set (neighbours (int n, 0))"
      by (auto simp: neighbours_def directions_def)
    from region_step [OF prev g1(1) _ nb g1(2)] all g1 show ?case by blast
  qed
  have col: "int m < h \<Longrightarrow> (x, int m) \<in> region w h ok {(0, 0)}" for m
  proof (induction m)
    case 0
    from row [of "nat x"] b show ?case by simp
  next
    case (Suc m)
    then have prev: "(x, int m) \<in> region w h ok {(0, 0)}" by simp
    have g1: "inGrid w h (x, int m)" "inGrid w h (x, int (Suc m))"
      using Suc.prems b by (auto simp: inGrid_def)
    have nb: "(x, int (Suc m)) \<in> set (neighbours (x, int m))"
      by (auto simp: neighbours_def directions_def)
    from region_step [OF prev g1(1) _ nb g1(2)] all g1 show ?case by blast
  qed
  from col [of "nat y"] b show ?thesis by (simp add: p)
qed

lemma region_all:
  assumes all: "\<forall>p. inGrid w h p \<longrightarrow> ok p" and g: "inGrid w h p"
  shows "region w h ok {p} = {q. inGrid w h q}"
proof -
  have o: "inGrid w h (0, 0)" using g by (auto simp: inGrid_def)
  have "region w h ok {(0, 0)} = {q. inGrid w h q}"
    using grid_connected [OF all] region_subset_grid [of w h "(0, 0)" ok] o all by blast
  moreover have "region w h ok {p} = region w h ok {(0, 0)}"
    using grid_connected [OF all g] by (rule region_eq)
  ultimately show ?thesis by simp
qed

lemma grid_extent:
  assumes "0 < w" "0 < h"
  shows "Min (fst ` {q. inGrid w h q}) = 0" "Max (fst ` {q. inGrid w h q}) = w - 1"
        "Min (snd ` {q. inGrid w h q}) = 0" "Max (snd ` {q. inGrid w h q}) = h - 1"
proof -
  have f: "fst ` {q. inGrid w h q} = {0..<w}" "snd ` {q. inGrid w h q} = {0..<h}"
    using assms by (auto simp: inGrid_def image_def)
  show "Min (fst ` {q. inGrid w h q}) = 0" "Max (fst ` {q. inGrid w h q}) = w - 1"
    "Min (snd ` {q. inGrid w h q}) = 0" "Max (snd ` {q. inGrid w h q}) = h - 1"
    unfolding f using assms by (auto intro!: Min_eqI Max_eqI)
qed

lemma filter_eq_single:
  assumes "distinct xs" "a \<in> set xs"
  shows "filter (\<lambda>p. p = a) xs = [a]"
  using assms by (induction xs) (auto simp: filter_empty_conv)

lemma distinct_pixelOrder: "distinct (pixelOrder w h)"
proof -
  have "sorted_wrt (\<lambda>a b. idx w a < idx w b) xs \<Longrightarrow> distinct xs" for xs
    by (induction xs) auto
  then show ?thesis using sorted_pixelOrder .
qed

lemma detect_all_foreground:
  assumes pos: "0 < img_width img" "0 < img_height img"
    and all: "\<forall>p. inGrid (img_width img) (img_height img) p \<longrightarrow>
                fgAt (img_data img) options (img_width img) p"
  shows "detect_spec img options =
     (if img_width img > 6 \<and> img_height img > 6
      then [\<lparr> box_x = 0, box_y = 0, box_width = img_width img, box_height = img_height img \<rparr>]
      else [])"
proof -
  let ?w = "img_width img" and ?h = "img_height img" and ?d = "img_data img"
  let ?G = "{q. inGrid ?w ?h q}"
  have o: "inGrid ?w ?h (0, 0)" using pos by (simp add: inGrid_def)
  have comp: "component ?d options ?w ?h p = ?G" if "inGrid ?w ?h p" for p
    unfolding component_def using region_all [OF all that] .
  have first: "firstOf ?d options ?w ?h p \<longleftrightarrow> p = (0, 0)" if g: "inGrid ?w ?h p" for p
  proof
    assume "firstOf ?d options ?w ?h p"
    with comp [OF g] o have "idx ?w p \<le> idx ?w (0, 0)" by (auto simp: firstOf_def)
    with idx_range [OF g] have "idx ?w p = idx ?w (0, 0)" by (simp add: idx_def)
    with idx_inj [OF g o] show "p = (0, 0)" by simp
  next
    assume "p = (0, 0)"
    then show "firstOf ?d options ?w ?h p"
      using comp [OF g] idx_range [of ?w ?h] by (auto simp: firstOf_def idx_def)
  qed
  have big: "bigEnough ?G \<longleftrightarrow> ?w > 6 \<and> ?h > 6"
    using grid_extent [OF pos] by (auto simp: bigEnough_def)
  have box: "bboxOf ?G = \<lparr> box_x = 0, box_y = 0, box_width = ?w, box_height = ?h \<rparr>"
    using grid_extent [OF pos] by (simp add: bboxOf_def)
  have k: "keep ?d options ?w ?h p \<longleftrightarrow> p = (0, 0) \<and> (?w > 6 \<and> ?h > 6)" if "p \<in> set (pixelOrder ?w ?h)" for p
  proof -
    from that have g: "inGrid ?w ?h p" by (simp add: set_pixelOrder)
    show ?thesis using all g first [OF g] comp [OF g] big by (auto simp: keep_def)
  qed
  have "filter (keep ?d options ?w ?h) (pixelOrder ?w ?h) =
      filter (\<lambda>p. p = (0, 0) \<and> (?w > 6 \<and> ?h > 6)) (pixelOrder ?w ?h)"
    by (rule filter_cong [OF refl]) (rule k)
  also have "\<dots> = (if ?w > 6 \<and> ?h > 6 then [(0, 0)] else [])"
    using filter_eq_single [OF distinct_pixelOrder, of "(0, 0)" ?w ?h] o
    by (simp add: set_pixelOrder)
  finally show ?thesis
    using comp [OF o] box by (simp add: detect_spec_def)
qed

lemma detect_all_background:
  assumes all: "\<forall>p. inGrid (img_width img) (img_height img) p \<longrightarrow>
                \<not> fgAt (img_data img) options (img_width img) p"
  shows "detect_spec img options = []"
proof -
  have "\<not> keep (img_data img) options (img_width img) (img_height img) p"
    if "p \<in> set (pixelOrder (img_width img) (img_height img))" for p
  proof -
    from that have "inGrid (img_width img) (img_height img) p" by (simp add: set_pixelOrder)
    with all have "\<not> fgAt (img_data img) options (img_width img) p" by blast
    then show ?thesis by (simp add: keep_def)
  qed
  then show ?thesis by (simp add: detect_spec_def filter_empty_conv)
qed

subsection \<open>Visited flags, and the claims about detection\<close>

lemma isVisited_mark_mono:
  assumes "isVisited vis j"
  shows "isVisited (markVisited vis i) j"
proof -
  from assms have j: "0 \<le> j" "nat j < length vis" "uint (vis ! nat j) \<noteq> 0"
    by (auto simp: isVisited_def rd_def split: if_splits)
  have "uint ((wr vis i 1) ! nat j) \<noteq> 0"
  proof (cases "0 \<le> i \<and> nat i = nat j")
    case True
    with j show ?thesis by (simp add: wr_def)
  next
    case False
    with j show ?thesis by (auto simp: wr_def)
  qed
  with j show ?thesis by (simp add: isVisited_def rd_def markVisited_def wr_def)
qed

lemma tryNeighbour_mono:
  "isVisited (snd qv) j \<Longrightarrow> isVisited (snd (tryNeighbour data options w h c qv d)) j"
  by (cases c; cases qv; cases d) (auto simp: tryNeighbour_def Let_def isVisited_mark_mono)

lemma foldl_tryNeighbour_mono:
  "isVisited (snd qv) j \<Longrightarrow> isVisited (snd (foldl (tryNeighbour data options w h c) qv ds)) j"
  by (induction ds arbitrary: qv) (auto simp: tryNeighbour_mono)

lemma fillStep_mono:
  "isVisited (fs_visited s) j \<Longrightarrow> isVisited (fs_visited (fillStep data options w h s)) j"
  using foldl_tryNeighbour_mono [of "(fs_queue s, fs_visited s)" j data options w h "fs_queue s ! fs_head s" directions]
  by (simp add: fillStep_def case_prod_unfold)

lemma floodFill_mono:
  assumes "floodFill data options w h s = Some s'" "isVisited (fs_visited s) j"
  shows "isVisited (fs_visited s') j"
proof -
  have "isVisited (fs_visited s) j \<longrightarrow> isVisited (fs_visited s') j"
  proof (rule floodFill.raw_induct
      [where P = "\<lambda>d o' w h s y. isVisited (fs_visited s) j \<longrightarrow> isVisited (fs_visited y) j",
        OF _ assms(1)])
    fix ff d o' w' h' t y
    assume IH: "\<And>d o' w h s y. ff d o' w h s = Some y \<Longrightarrow>
        isVisited (fs_visited s) j \<longrightarrow> isVisited (fs_visited y) j"
      and eq: "(if fs_head t < length (fs_queue t) then ff d o' w' h' (fillStep d o' w' h' t)
          else Some t) = Some y"
    show "isVisited (fs_visited t) j \<longrightarrow> isVisited (fs_visited y) j"
    proof (cases "fs_head t < length (fs_queue t)")
      case True
      with eq have "ff d o' w' h' (fillStep d o' w' h' t) = Some y" by simp
      from IH [OF this] fillStep_mono [of t j d o' w' h'] show ?thesis by blast
    next
      case False
      with eq show ?thesis by simp
    qed
  qed
  with assms show ?thesis by blast
qed

lemma scanPixel_mono:
  assumes "scanPixel data options w h p st = Some st'" "isVisited (sc_visited st) j"
  shows "isVisited (sc_visited st') j"
  using assms
  by (cases p) (auto simp: scanPixel_def Let_def isVisited_mark_mono
      split: if_splits option.splits dest!: floodFill_mono)


text \<open>
  Claim C1.  For an image of positive width and height (any buffer, any options),
  \<open>detectObjectsFromImage\<close> returns, in row-major order of the pixels \<open>p\<close> that are
  foreground, have the least index \<open>y * width + x\<close> of their 4-connected foreground
  component and whose component spans more than 5 in both directions
  (\<open>maxX - minX > 5\<close> and \<open>maxY - minY > 5\<close>), the box
  \<open>(minX, minY, maxX - minX + 1, maxY - minY + 1)\<close> of the component of \<open>p\<close>.  So an
  image that is background everywhere gives the empty list, and an image that is
  foreground everywhere gives its full extent when it is wider and higher than 6 pixels
  (7 x 7 is kept) and nothing otherwise (6 x 6 is dropped).
\<close>

theorem detectRegions_components:
  assumes "0 < img_width img" "0 < img_height img"
  shows "detectObjectsFromImage img options =
           Some (map (\<lambda>p. bboxOf (component (img_data img) options (img_width img) (img_height img) p))
                  (filter (\<lambda>p. fgAt (img_data img) options (img_width img) p \<and>
                                firstOf (img_data img) options (img_width img) (img_height img) p \<and>
                                bigEnough (component (img_data img) options (img_width img) (img_height img) p))
                     (pixelOrder (img_width img) (img_height img)))) \<and>
         ((\<forall>p. inGrid (img_width img) (img_height img) p \<longrightarrow>
                isBackground (img_data img) options (idx (img_width img) p * 4)) \<longrightarrow>
            detectObjectsFromImage img options = Some []) \<and>
         ((\<forall>p. inGrid (img_width img) (img_height img) p \<longrightarrow>
                \<not> isBackground (img_data img) options (idx (img_width img) p * 4)) \<longrightarrow>
            detectObjectsFromImage img options =
              Some (if img_width img > 6 \<and> img_height img > 6
                    then [\<lparr> box_x = 0, box_y = 0, box_width = img_width img, box_height = img_height img \<rparr>]
                    else []))"
proof -
  have k: "keep (img_data img) options (img_width img) (img_height img) =
      (\<lambda>p. fgAt (img_data img) options (img_width img) p \<and>
                                firstOf (img_data img) options (img_width img) (img_height img) p \<and>
                                bigEnough (component (img_data img) options (img_width img) (img_height img) p))"
    by (intro ext) (simp add: keep_def)
  have a: "detectObjectsFromImage img options = Some (detect_spec img options)"
    by (rule detect_correct)
  have b: "detect_spec img options = []"
    if "\<forall>p. inGrid (img_width img) (img_height img) p \<longrightarrow>
                isBackground (img_data img) options (idx (img_width img) p * 4)"
    using that by (intro detect_all_background) (simp add: fgAt_def)
  have c: "detect_spec img options = (if img_width img > 6 \<and> img_height img > 6
                    then [\<lparr> box_x = 0, box_y = 0, box_width = img_width img, box_height = img_height img \<rparr>]
                    else [])"
    if "\<forall>p. inGrid (img_width img) (img_height img) p \<longrightarrow>
                \<not> isBackground (img_data img) options (idx (img_width img) p * 4)"
    using that by (intro detect_all_foreground assms) (simp add: fgAt_def)
  show ?thesis
    using b c unfolding a by (simp add: detect_spec_def k)
qed

text \<open>
  Fully opaque images in transparent mode: the 7 x 7 one is one kept region, the
  6 x 6 one is one dropped region.
\<close>

theorem detectRegions_components_witness:
  "detectObjectsFromImage
     \<lparr> img_id = ''a'', img_name = ''a.png'', img_width = 7, img_height = 7,
       img_data = replicate 196 255 \<rparr>
     \<lparr> opt_mode = Transparent, opt_color = ''#ffffff'' \<rparr>
     = Some [\<lparr> box_x = 0, box_y = 0, box_width = 7, box_height = 7 \<rparr>] \<and>
   detectObjectsFromImage
     \<lparr> img_id = ''b'', img_name = ''b.png'', img_width = 6, img_height = 6,
       img_data = replicate 144 255 \<rparr>
     \<lparr> opt_mode = Transparent, opt_color = ''#ffffff'' \<rparr>
     = Some []"
proof -
  have op: "\<not> isBackground (replicate n 255) \<lparr> opt_mode = Transparent, opt_color = ''#ffffff'' \<rparr> i" for n i
    by (simp add: isBackground_def rd_def ALPHA_THRESHOLD_def)
  let ?a = "\<lparr> img_id = ''a'', img_name = ''a.png'', img_width = 7, img_height = 7,
       img_data = replicate 196 255 \<rparr>"
  let ?b = "\<lparr> img_id = ''b'', img_name = ''b.png'', img_width = 6, img_height = 6,
       img_data = replicate 144 255 \<rparr>"
  let ?o = "\<lparr> opt_mode = Transparent, opt_color = ''#ffffff'' \<rparr>"
  have pa: "0 < img_width ?a" "0 < img_height ?a" and pb: "0 < img_width ?b" "0 < img_height ?b"
    by simp_all
  from detectRegions_components [OF pa, of ?o, THEN conjunct2, THEN conjunct2]
  have ra: "detectObjectsFromImage ?a ?o = Some [\<lparr> box_x = 0, box_y = 0, box_width = 7, box_height = 7 \<rparr>]"
    by (simp add: op)
  from detectRegions_components [OF pb, of ?o, THEN conjunct2, THEN conjunct2]
  have rb: "detectObjectsFromImage ?b ?o = Some []"
    by (simp add: op)
  from ra rb show ?thesis by blast
qed

text \<open>
  Claim C9.  In a run of the scan on an image of positive size, the pixels put on the
  flood-fill queues are pairwise distinct pixels of the grid, so they are at most
  \<open>width * height\<close>; and neither a step of the fill nor a step of the scan clears a
  visited flag.
\<close>

theorem detect_visits_once:
  assumes "0 < img_width img" "0 < img_height img"
  shows "(\<exists>st. detectScan img options = Some st \<and> distinct (sc_enqueued st) \<and>
            set (sc_enqueued st) \<subseteq> {p. inGrid (img_width img) (img_height img) p} \<and>
            length (sc_enqueued st) \<le> nat (img_width img * img_height img)) \<and>
         (\<forall>s j. isVisited (fs_visited s) j \<longrightarrow>
            isVisited (fs_visited (fillStep (img_data img) options (img_width img) (img_height img) s)) j) \<and>
         (\<forall>p st st' j.
            scanPixel (img_data img) options (img_width img) (img_height img) p st = Some st' \<and>
            isVisited (sc_visited st) j \<longrightarrow> isVisited (sc_visited st') j)"
proof -
  let ?w = "img_width img" and ?h = "img_height img" and ?d = "img_data img"
  from detectScan_run [of img options] obtain st where
    run: "detectScan img options = Some st"
    and inv: "scanInv ?d options ?w ?h {p. inGrid ?w ?h p} st" by blast
  from inv have dis: "distinct (sc_enqueued st)"
    and eq: "set (sc_enqueued st) =
        {p. \<exists>d \<in> {p. inGrid ?w ?h p}. fgAt ?d options ?w d \<and> p \<in> component ?d options ?w ?h d}"
    by (simp_all add: scanInv_def)
  have sub: "set (sc_enqueued st) \<subseteq> {p. inGrid ?w ?h p}"
    unfolding eq component_def using region_subset_grid [of ?w ?h _ "fgAt ?d options ?w"] by blast
  have "length (sc_enqueued st) = card (set (sc_enqueued st))"
    using dis by (simp add: distinct_card)
  also have "\<dots> \<le> card {p. inGrid ?w ?h p}"
    using sub by (intro card_mono finite_grid)
  also have "\<dots> = nat (?w * ?h)"
    using assms by (simp add: card_grid nat_mult_distrib)
  finally have len: "length (sc_enqueued st) \<le> nat (?w * ?h)" .
  show ?thesis
    using run dis sub len fillStep_mono scanPixel_mono by blast
qed

text \<open>
  A 2 x 1 image whose two pixels are opaque: one fill, started at (0, 0), enqueues
  both pixels once.
\<close>

theorem detect_visits_once_witness:
  "\<exists>st. detectScan
      \<lparr> img_id = ''a'', img_name = ''a.png'', img_width = 2, img_height = 1,
        img_data = [0, 0, 0, 255, 0, 0, 0, 255] \<rparr>
      \<lparr> opt_mode = Transparent, opt_color = ''#ffffff'' \<rparr> = Some st \<and>
     distinct (sc_enqueued st) \<and> length (sc_enqueued st) \<le> 2"
  using detect_visits_once
    [of "\<lparr> img_id = ''a'', img_name = ''a.png'', img_width = 2, img_height = 1,
        img_data = [0, 0, 0, 255, 0, 0, 0, 255] \<rparr>"
       "\<lparr> opt_mode = Transparent, opt_color = ''#ffffff'' \<rparr>"]
  by auto

text \<open>
  Claim C10.  In colour mode with a colour string that does not parse, no pixel is
  background, and for an image wider and higher than 6 pixels the result is the one box
  of the whole image.
\<close>

theorem unparsable_color_whole_image:
  assumes "opt_mode options = Color" "hexToRgb (opt_color options) = None"
    and "img_width img > 6" "img_height img > 6"
  shows "(\<forall>i. \<not> isBackground (img_data img) options i) \<and>
         detectObjectsFromImage img options =
           Some [\<lparr> box_x = 0, box_y = 0, box_width = img_width img, box_height = img_height img \<rparr>]"
proof -
  have nb: "\<not> isBackground (img_data img) options i" for i
    using assms(1,2) by (simp add: isBackground_def bgColorRgb_def)
  have pos: "0 < img_width img" "0 < img_height img" using assms(3,4) by simp_all
  have "detect_spec img options =
      [\<lparr> box_x = 0, box_y = 0, box_width = img_width img, box_height = img_height img \<rparr>]"
    using detect_all_foreground [OF pos, of options] nb assms(3,4) by (simp add: fgAt_def)
  with nb show ?thesis by (simp add: detect_correct)
qed

theorem unparsable_color_whole_image_witness:
  "hexToRgb ''notacolor'' = None \<and>
   detectObjectsFromImage
     \<lparr> img_id = ''a'', img_name = ''a.png'', img_width = 7, img_height = 8,
       img_data = replicate 224 0 \<rparr>
     \<lparr> opt_mode = Color, opt_color = ''notacolor'' \<rparr>
     = Some [\<lparr> box_x = 0, box_y = 0, box_width = 7, box_height = 8 \<rparr>]"
proof -
  have h: "hexToRgb ''notacolor'' = None"
    by (simp add: hexToRgb_def stripHash_def)
  show ?thesis
    using h unparsable_color_whole_image
      [of "\<lparr> opt_mode = Color, opt_color = ''notacolor'' \<rparr>"
          "\<lparr> img_id = ''a'', img_name = ''a.png'', img_width = 7, img_height = 8,
             img_data = replicate 224 0 \<rparr>"]
    by simp
qed

section \<open>Background removal\<close>

text \<open>
  \<^verbatim>\<open>removeImageBackground\<close> (App.tsx).  \<open>data\<close> is the buffer the passes write,
  \<open>originalData\<close> the copy taken before Pass 1, \<open>postFloodFillData\<close> the copy taken
  between the passes.  The result stands for \<^verbatim>\<open>{...imageFile, url: canvas.toDataURL()}\<close>:
  the image with the written buffer.
\<close>

definition REMOVE_COLOR_THRESHOLD :: real where "REMOVE_COLOR_THRESHOLD = 20"

definition colorMatch :: "RGB \<Rightarrow> int option \<Rightarrow> int option \<Rightarrow> int option \<Rightarrow> bool" where
  "colorMatch targetRgb r g b =
     (case (r, g, b) of
        (Some r, Some g, Some b) \<Rightarrow>
          colorDistance r g b (rgb_r targetRgb) (rgb_g targetRgb) (rgb_b targetRgb)
            < REMOVE_COLOR_THRESHOLD
      | _ \<Rightarrow> False)"

definition addToQueue ::
  "int \<Rightarrow> RGB \<Rightarrow> u8 list \<Rightarrow> pos list \<times> u8 list \<Rightarrow> pos \<Rightarrow> pos list \<times> u8 list" where
  "addToQueue width targetRgb data qv p =
     (case (qv, p) of ((queue, visited), (x, y)) \<Rightarrow>
        (let i = y * width + x in
         if isVisited visited i then (queue, visited)
         else
           (let pixelIndex = i * 4 in
            if colorMatch targetRgb (rd data pixelIndex) (rd data (pixelIndex + 1))
                 (rd data (pixelIndex + 2))
            then (queue @ [(x, y)], markVisited visited i)
            else (queue, visited))))"

text \<open>
  The pixels of the two seeding loops, in the order of the calls of \<^verbatim>\<open>addToQueue\<close>.
\<close>

definition borderSeeds :: "int \<Rightarrow> int \<Rightarrow> pos list" where
  "borderSeeds width height =
     concat (map (\<lambda>x. [(x, 0), (x, height - 1)]) [0..width - 1]) @
     concat (map (\<lambda>y. [(0, y), (width - 1, y)]) [1..height - 2])"

record RemoveState =
  rs_queue :: "pos list"
  rs_head :: nat
  rs_visited :: "u8 list"
  rs_data :: "u8 list"

definition removeStep :: "int \<Rightarrow> int \<Rightarrow> RGB \<Rightarrow> RemoveState \<Rightarrow> RemoveState" where
  "removeStep width height targetRgb s =
     (case rs_queue s ! rs_head s of (x, y) \<Rightarrow>
        (let i = (y * width + x) * 4;
             data = wr (rs_data s) (i + 3) 0
         in case foldl (\<lambda>qv d. case d of (dx, dy) \<Rightarrow>
                          (let nx = x + dx; ny = y + dy in
                           if nx \<ge> 0 \<and> nx < width \<and> ny \<ge> 0 \<and> ny < height
                           then addToQueue width targetRgb data qv (nx, ny) else qv))
                   (rs_queue s, rs_visited s) directions of
              (queue, visited) \<Rightarrow>
                \<lparr> rs_queue = queue, rs_head = rs_head s + 1, rs_visited = visited,
                  rs_data = data \<rparr>))"

partial_function (option) removeLoop ::
  "int \<Rightarrow> int \<Rightarrow> RGB \<Rightarrow> RemoveState \<Rightarrow> RemoveState option" where
  "removeLoop width height targetRgb s =
     (if rs_head s < length (rs_queue s)
      then removeLoop width height targetRgb (removeStep width height targetRgb s)
      else Some s)"

definition pass1 :: "int \<Rightarrow> int \<Rightarrow> RGB \<Rightarrow> u8 list \<Rightarrow> u8 list option" where
  "pass1 width height targetRgb data =
     (case foldl (addToQueue width targetRgb data)
             ([], replicate (nat (width * height)) 0) (borderSeeds width height) of
        (queue, visited) \<Rightarrow>
          map_option rs_data
            (removeLoop width height targetRgb
               \<lparr> rs_queue = queue, rs_head = 0, rs_visited = visited, rs_data = data \<rparr>))"

text \<open>
  Numbers are IEEE 754 doubles, and \<^verbatim>\<open>Math.sqrt\<close>, a division and a product return
  the double nearest to the exact result, a tie going to the even significand.
  \<open>roundDouble v\<close> is that double for the real number \<open>v\<close>: with \<open>e\<close> the exponent of the
  binade of \<open>v\<close>, which is \<open>\<lfloor>log\<^sub>2 \<bar>v\<bar>\<rfloor>\<close> and no less than \<open>-1022\<close> (below lie the
  subnormal numbers), the doubles around \<open>v\<close> are the multiples of \<open>2^(e - 52)\<close>.  Overflow
  is left out: in Pass 2 the root is below 442, the quotient at most 1 and the product
  at most 255.  A feather radius is a real number here, so it is neither NaN nor
  infinite.
\<close>

definition roundHalfEven :: "real \<Rightarrow> int" where
  "roundHalfEven v =
     (let f = \<lfloor>v\<rfloor> in
      if v - real_of_int f < 1 / 2 then f
      else if 1 / 2 < v - real_of_int f then f + 1
      else if even f then f
      else f + 1)"

definition pow2 :: "int \<Rightarrow> real" where
  "pow2 e = (if 0 \<le> e then 2 ^ nat e else 1 / 2 ^ nat (- e))"

definition binade :: "real \<Rightarrow> int" where
  "binade v = max \<lfloor>log 2 \<bar>v\<bar>\<rfloor> (- 1022)"

definition roundDouble :: "real \<Rightarrow> real" where
  "roundDouble v =
     (if v = 0 then 0
      else (let ulp = pow2 (binade v - 52)
            in real_of_int (roundHalfEven (v / ulp)) * ulp))"

text \<open>
  Storing a number in a \<^verbatim>\<open>Uint8ClampedArray\<close> clamps it to 0..255 and rounds it to
  the nearest integer, ties to even.
\<close>

definition toUint8Clamp :: "real \<Rightarrow> u8" where
  "toUint8Clamp v =
     (if v \<le> 0 then 0
      else if v \<ge> 255 then 255
      else (let f = \<lfloor>v\<rfloor> in
            if real_of_int f + 0.5 < v then word_of_int (f + 1)
            else if v < real_of_int f + 0.5 then word_of_int f
            else if even f then word_of_int f
            else word_of_int (f + 1)))"

definition isEdge :: "int \<Rightarrow> int \<Rightarrow> u8 list \<Rightarrow> pos \<Rightarrow> bool" where
  "isEdge width height postFloodFillData p =
     (case p of (x, y) \<Rightarrow>
        list_ex (\<lambda>d. case d of (dx, dy) \<Rightarrow>
                   (let nx = x + dx; ny = y + dy in
                    nx \<ge> 0 \<and> nx < width \<and> ny \<ge> 0 \<and> ny < height \<and>
                    rd postFloodFillData (((ny * width + nx) * 4) + 3) = Some 0))
          directions)"

text \<open>
  The body of the loops of Pass 2 for the pixel \<open>(x, y)\<close>.  \<open>distance\<close> is the double that
  \<^verbatim>\<open>colorDistance\<close> returns, and the stored number is the double
  \<^verbatim>\<open>originalAlpha * (distance / feather)\<close>: the quotient rounded, then the product
  rounded.  A channel read outside the buffer is \<^verbatim>\<open>undefined\<close>: the distance is then
  NaN and the test \<open>distance < feather\<close> fails; an \<^verbatim>\<open>undefined\<close> alpha makes the
  product NaN, stored as 0.
\<close>

definition featherPixel ::
  "int \<Rightarrow> int \<Rightarrow> RGB \<Rightarrow> real \<Rightarrow> u8 list \<Rightarrow> u8 list \<Rightarrow> u8 list \<Rightarrow> pos \<Rightarrow> u8 list" where
  "featherPixel width height targetRgb feather originalData postFloodFillData data p =
     (case p of (x, y) \<Rightarrow>
        (let i = y * width + x; pixelIndex = i * 4 in
         if (case rd postFloodFillData (pixelIndex + 3) of Some a \<Rightarrow> a > 0 | None \<Rightarrow> False)
         then
           (if isEdge width height postFloodFillData (x, y)
            then
              (case (rd originalData pixelIndex, rd originalData (pixelIndex + 1),
                     rd originalData (pixelIndex + 2)) of
                 (Some r, Some g, Some b) \<Rightarrow>
                   (let distance = roundDouble (colorDistance r g b (rgb_r targetRgb)
                                     (rgb_g targetRgb) (rgb_b targetRgb))
                    in if distance < feather
                       then (case rd originalData (pixelIndex + 3) of
                               Some originalAlpha \<Rightarrow>
                                 wr data (pixelIndex + 3)
                                   (toUint8Clamp
                                      (roundDouble (real_of_int originalAlpha *
                                         roundDouble (distance / feather))))
                             | None \<Rightarrow> wr data (pixelIndex + 3) 0)
                       else data)
               | _ \<Rightarrow> data)
            else data)
         else data))"

definition pass2 :: "int \<Rightarrow> int \<Rightarrow> RGB \<Rightarrow> real \<Rightarrow> u8 list \<Rightarrow> u8 list \<Rightarrow> u8 list" where
  "pass2 width height targetRgb feather originalData data =
     (let postFloodFillData = data
      in foldl (featherPixel width height targetRgb feather originalData postFloodFillData)
           data (pixelOrder width height))"

definition removeImageBackground :: "ImageFile \<Rightarrow> string \<Rightarrow> real \<Rightarrow> ImageFile option" where
  "removeImageBackground imageFile hexColor feather =
     (let width = img_width imageFile; height = img_height imageFile;
          originalData = img_data imageFile; data = img_data imageFile
      in case hexToRgb hexColor of
           None \<Rightarrow> Some imageFile
         | Some targetRgb \<Rightarrow>
             (case pass1 width height targetRgb data of
                None \<Rightarrow> None
              | Some data \<Rightarrow>
                  (let data = (if feather > 0
                               then pass2 width height targetRgb feather originalData data
                               else data)
                   in Some (imageFile\<lparr>img_data := data\<rparr>))))"

subsection \<open>Unparsable colours\<close>

text \<open>
  A colour string in the form \<open>#RRGGBB\<close> or \<open>RRGGBB\<close>: six hexadecimal digits after an
  optional \<open>#\<close>.
\<close>

definition isHexColor :: "string \<Rightarrow> bool" where
  "isHexColor hex \<longleftrightarrow>
     (\<exists>body. (hex = body \<or> hex = CHR ''#'' # body) \<and> length body = 6 \<and> list_all isHexDigit body)"

lemma length6: "length xs = 6 \<longleftrightarrow> (\<exists>a b c d e f. xs = [a, b, c, d, e, f])"
proof
  assume "length xs = 6"
  then show "\<exists>a b c d e f. xs = [a, b, c, d, e, f]"
    by (auto simp: length_Suc_conv eval_nat_numeral)
qed auto

lemma hexToRgb_Some_iff:
  "hexToRgb hex \<noteq> None \<longleftrightarrow> length (stripHash hex) = 6 \<and> list_all isHexDigit (stripHash hex)"
proof (cases "length (stripHash hex) = 6")
  case True
  then obtain a b c d e f where "stripHash hex = [a, b, c, d, e, f]" by (auto simp: length6)
  then show ?thesis by (simp add: hexToRgb_def)
next
  case False
  then have "\<not> (\<exists>a b c d e f. stripHash hex = [a, b, c, d, e, f])" by (simp add: length6)
  then have "hexToRgb hex = None"
    by (auto simp: hexToRgb_def split: list.splits)
  with False show ?thesis by simp
qed

lemma not_hex_hash: "\<not> isHexDigit CHR ''#''"
  by (simp add: isHexDigit_def)

lemma isHexColor_iff:
  "isHexColor hex \<longleftrightarrow> length (stripHash hex) = 6 \<and> list_all isHexDigit (stripHash hex)"
proof
  assume "isHexColor hex"
  then obtain body where b: "hex = body \<or> hex = CHR ''#'' # body" "length body = 6"
    "list_all isHexDigit body" by (auto simp: isHexColor_def)
  from b(1) show "length (stripHash hex) = 6 \<and> list_all isHexDigit (stripHash hex)"
  proof
    assume h: "hex = body"
    from b(2) obtain c cs where "body = c # cs" by (cases body) auto
    with b(3) not_hex_hash have "stripHash body = body" by (auto simp: stripHash_def)
    with h b show ?thesis by simp
  next
    assume "hex = CHR ''#'' # body"
    then have "stripHash hex = body" by (simp add: stripHash_def)
    with b show ?thesis by simp
  qed
next
  assume a: "length (stripHash hex) = 6 \<and> list_all isHexDigit (stripHash hex)"
  have "hex = stripHash hex \<or> hex = CHR ''#'' # stripHash hex"
    by (auto simp: stripHash_def split: list.splits)
  with a show "isHexColor hex" unfolding isHexColor_def by blast
qed

lemma hexToRgb_None_iff: "hexToRgb hex = None \<longleftrightarrow> \<not> isHexColor hex"
  using hexToRgb_Some_iff [of hex] isHexColor_iff [of hex] by blast

text \<open>
  Claim C6.  \<open>hexToRgb\<close> fails exactly on the strings that are not of the form \<open>#RRGGBB\<close>
  or \<open>RRGGBB\<close>, and for such a string \<open>removeImageBackground\<close> returns the image it was
  given, whatever the image and the feather value.
\<close>

theorem unparsable_color_unchanged:
  "(hexToRgb hexColor = None \<longleftrightarrow> \<not> isHexColor hexColor) \<and>
   (\<not> isHexColor hexColor \<longrightarrow> removeImageBackground imageFile hexColor feather = Some imageFile)"
proof -
  have "removeImageBackground imageFile hexColor feather = Some imageFile"
    if "hexToRgb hexColor = None"
    using that by (simp add: removeImageBackground_def)
  then show ?thesis using hexToRgb_None_iff [of hexColor] by simp
qed

text \<open>The string \<open>notacolor\<close> is none.\<close>

theorem unparsable_color_unchanged_witness:
  "hexToRgb ''notacolor'' = None \<and>
   removeImageBackground
     \<lparr> img_id = ''a'', img_name = ''a.png'', img_width = 1, img_height = 1,
       img_data = [255, 255, 255, 255] \<rparr> ''notacolor'' 25
   = Some \<lparr> img_id = ''a'', img_name = ''a.png'', img_width = 1, img_height = 1,
       img_data = [255, 255, 255, 255] \<rparr>"
proof -
  have h: "hexToRgb ''notacolor'' = None"
    by (simp add: hexToRgb_def stripHash_def)
  from unparsable_color_unchanged [of "''notacolor''"
      "\<lparr> img_id = ''a'', img_name = ''a.png'', img_width = 1, img_height = 1,
       img_data = [255, 255, 255, 255] \<rparr>" 25] h
  show ?thesis by simp
qed

subsection \<open>Pass 1 removes the region that touches the border\<close>

text \<open>
  \<open>matchAt\<close> is \<^verbatim>\<open>colorMatch\<close> on the colour channels of a pixel.  Pass 1 writes alpha
  bytes only, so it is the same predicate on every buffer the loop goes through
  (\<open>sameRGB\<close>); \<open>clearAlpha\<close> is the buffer after the pixels \<open>ps\<close> were dequeued.
\<close>

definition matchAt :: "u8 list \<Rightarrow> int \<Rightarrow> RGB \<Rightarrow> pos \<Rightarrow> bool" where
  "matchAt data width targetRgb p \<longleftrightarrow>
     colorMatch targetRgb (rd data (idx width p * 4)) (rd data (idx width p * 4 + 1))
       (rd data (idx width p * 4 + 2))"

definition sameRGB :: "u8 list \<Rightarrow> u8 list \<Rightarrow> bool" where
  "sameRGB data data' \<longleftrightarrow> (\<forall>j. j mod 4 \<noteq> 3 \<longrightarrow> rd data j = rd data' j)"

definition clearAlpha :: "int \<Rightarrow> u8 list \<Rightarrow> pos list \<Rightarrow> u8 list" where
  "clearAlpha width data ps = foldl (\<lambda>d p. wr d (idx width p * 4 + 3) 0) data ps"

lemma length_wr [simp]: "length (wr d i v) = length d"
  by (simp add: wr_def)

lemma rd_wr: "rd (wr d i v) j = (if j = i then map_option (\<lambda>_. uint v) (rd d j) else rd d j)"
  by (auto simp: rd_def wr_def nth_list_update)

lemma sameRGB_refl: "sameRGB d d"
  by (simp add: sameRGB_def)

lemma sameRGB_wr:
  assumes "sameRGB d d0"
  shows "sameRGB (wr d (k * 4 + 3) v) d0"
proof -
  have "(k * 4 + 3) mod 4 = (3::int)" by presburger
  then have "j \<noteq> k * 4 + 3" if "j mod 4 \<noteq> 3" for j using that by auto
  then show ?thesis using assms by (simp add: sameRGB_def rd_wr)
qed

lemma matchAt_sameRGB:
  assumes "sameRGB d d0"
  shows "matchAt d w t p = matchAt d0 w t p"
proof -
  have "(idx w p * 4) mod 4 \<noteq> 3" "(idx w p * 4 + 1) mod 4 \<noteq> 3" "(idx w p * 4 + 2) mod 4 \<noteq> 3"
    by presburger+
  with assms show ?thesis by (simp add: matchAt_def sameRGB_def)
qed

lemma addToQueue_pushIf:
  assumes "sameRGB d d0" "inGrid w h p"
  shows "addToQueue w t d qv p = pushIf w h (matchAt d0 w t) qv p"
  using assms(2) matchAt_sameRGB [OF assms(1), of w t p]
  by (cases qv; cases p) (auto simp: addToQueue_def pushIf_def Let_def matchAt_def idx_def)

lemma guarded_addToQueue_pushIf:
  assumes "sameRGB d d0"
  shows "(case dd of (dx, dy) \<Rightarrow>
            (let nx = x + dx; ny = y + dy in
             if nx \<ge> 0 \<and> nx < w \<and> ny \<ge> 0 \<and> ny < h
             then addToQueue w t d qv (nx, ny) else qv)) =
         pushIf w h (matchAt d0 w t) qv (fst (x, y) + fst dd, snd (x, y) + snd dd)"
proof (cases "inGrid w h (x + fst dd, y + snd dd)")
  case True
  from addToQueue_pushIf [OF assms True, of t qv] True show ?thesis
    by (cases dd) (simp add: Let_def inGrid_def)
next
  case False
  then show ?thesis by (cases dd) (auto simp: Let_def inGrid_def pushIf_def)
qed

definition remInv :: "int \<Rightarrow> int \<Rightarrow> RGB \<Rightarrow> u8 list \<Rightarrow> pos set \<Rightarrow> RemoveState \<Rightarrow> bool" where
  "remInv width height targetRgb data0 S s \<longleftrightarrow>
     fillInv width height (matchAt data0 width targetRgb) {} S (rs_queue s) (rs_head s) (rs_visited s) \<and>
     rs_data s = clearAlpha width data0 (take (rs_head s) (rs_queue s))"

lemma sameRGB_clearAlpha: "sameRGB (clearAlpha w d0 ps) d0"
proof (induction ps rule: rev_induct)
  case Nil
  then show ?case by (simp add: clearAlpha_def sameRGB_refl)
next
  case (snoc p ps)
  then show ?case using sameRGB_wr [of "clearAlpha w d0 ps" d0 "idx w p" 0]
    by (simp add: clearAlpha_def)
qed

lemma removeStep_eq:
  assumes c: "rs_queue s ! rs_head s = (x, y)"
    and same: "sameRGB (wr (rs_data s) (idx w (x, y) * 4 + 3) 0) d0"
  shows "removeStep w h t s =
     \<lparr> rs_queue = fst (foldl (pushIf w h (matchAt d0 w t)) (rs_queue s, rs_visited s) (neighbours (x, y))),
       rs_head = rs_head s + 1,
       rs_visited = snd (foldl (pushIf w h (matchAt d0 w t)) (rs_queue s, rs_visited s) (neighbours (x, y))),
       rs_data = wr (rs_data s) (idx w (x, y) * 4 + 3) 0 \<rparr>"
proof -
  let ?D = "wr (rs_data s) (idx w (x, y) * 4 + 3) 0"
  have ie: "y * w + x = idx w (x, y)" by (simp add: idx_def)
  have body: "(\<lambda>qv dd. case dd of (dx, dy) \<Rightarrow>
             if x + dx \<ge> 0 \<and> x + dx < w \<and> y + dy \<ge> 0 \<and> y + dy < h
             then addToQueue w t ?D qv (x + dx, y + dy) else qv) =
         (\<lambda>qv dd. pushIf w h (matchAt d0 w t) qv (fst (x, y) + fst dd, snd (x, y) + snd dd))"
    by (intro ext) (rule guarded_addToQueue_pushIf [OF same, unfolded Let_def])
  show ?thesis
    unfolding removeStep_def c prod.case Let_def ie body
    by (simp add: neighbours_def foldl_map case_prod_unfold)
qed

lemma removeStep_inv:
  assumes inv: "remInv w h t d0 S s" and lt: "rs_head s < length (rs_queue s)"
  shows "remInv w h t d0 S (removeStep w h t s) \<and> rs_head (removeStep w h t s) = rs_head s + 1"
proof -
  let ?ok = "matchAt d0 w t"
  let ?c = "rs_queue s ! rs_head s"
  let ?r = "foldl (pushIf w h ?ok) (rs_queue s, rs_visited s) (neighbours ?c)"
  let ?d = "wr (rs_data s) (idx w ?c * 4 + 3) 0"
  obtain x y where c: "?c = (x, y)" by (cases ?c)
  from inv have fi: "fillInv w h ?ok {} S (rs_queue s) (rs_head s) (rs_visited s)"
    and da: "rs_data s = clearAlpha w d0 (take (rs_head s) (rs_queue s))"
    by (simp_all add: remInv_def)
  have d': "?d = clearAlpha w d0 (take (rs_head s + 1) (rs_queue s))"
    using lt by (simp add: da clearAlpha_def take_Suc_conv_app_nth)
  have same: "sameRGB ?d d0" unfolding d' by (rule sameRGB_clearAlpha)
  have st: "removeStep w h t s =
      \<lparr> rs_queue = fst ?r, rs_head = rs_head s + 1, rs_visited = snd ?r, rs_data = ?d \<rparr>"
    using removeStep_eq [OF c same [unfolded c]] by (simp only: c)
  from fill_step_inv [OF fi lt] obtain new where
    fi': "fillInv w h ?ok {} S (fst ?r) (rs_head s + 1) (snd ?r)"
    and pre: "fst ?r = rs_queue s @ new"
    by blast
  have tk: "take (rs_head s + 1) (fst ?r) = take (rs_head s + 1) (rs_queue s)"
    using lt by (simp add: pre)
  show ?thesis
    unfolding remInv_def st using fi' d' tk by simp
qed

lemma removeLoop_total:
  assumes "remInv w h t d0 S s"
  shows "\<exists>s'. removeLoop w h t s = Some s' \<and> remInv w h t d0 S s' \<and>
              rs_head s' = length (rs_queue s')"
  using assms
proof (induction "card {p. inGrid w h p} - rs_head s" arbitrary: s rule: less_induct)
  case less
  show ?case
  proof (cases "rs_head s < length (rs_queue s)")
    case True
    from removeStep_inv [OF less.prems True]
    have inv': "remInv w h t d0 S (removeStep w h t s)"
      and hd': "rs_head (removeStep w h t s) = rs_head s + 1" by auto
    from less.prems have "qvInv w h (matchAt d0 w t) {} (region w h (matchAt d0 w t) S)
        (rs_queue s) (rs_visited s)"
      by (simp add: remInv_def fillInv_def)
    from fill_length_bound [OF this] True
    have "card {p. inGrid w h p} - rs_head (removeStep w h t s) < card {p. inGrid w h p} - rs_head s"
      by (simp add: hd')
    from less.hyps [OF this inv'] obtain s' where
      "removeLoop w h t (removeStep w h t s) = Some s'"
      "remInv w h t d0 S s'" "rs_head s' = length (rs_queue s')" by blast
    then show ?thesis using True by (subst removeLoop.simps) simp
  next
    case False
    from less.prems have "rs_head s \<le> length (rs_queue s)" by (simp add: remInv_def fillInv_def)
    with False have "rs_head s = length (rs_queue s)" by simp
    then show ?thesis using less.prems by (subst removeLoop.simps) simp
  qed
qed


text \<open>
  The region Pass 1 is specified to remove: what links between matching pixels reach
  from the matching pixels of the top and bottom rows and the left and right columns.
\<close>

definition onBorder :: "int \<Rightarrow> int \<Rightarrow> pos \<Rightarrow> bool" where
  "onBorder width height p \<longleftrightarrow>
     fst p = 0 \<or> fst p = width - 1 \<or> snd p = 0 \<or> snd p = height - 1"

definition borderRegion :: "int \<Rightarrow> int \<Rightarrow> RGB \<Rightarrow> u8 list \<Rightarrow> pos set" where
  "borderRegion width height targetRgb data =
     region width height (matchAt data width targetRgb)
       {s. inGrid width height s \<and> onBorder width height s \<and> matchAt data width targetRgb s}"

definition alphaAt :: "u8 list \<Rightarrow> int \<Rightarrow> pos \<Rightarrow> int option" where
  "alphaAt data width p = rd data (idx width p * 4 + 3)"

lemma set_borderSeeds:
  assumes "0 < w" "0 < h"
  shows "set (borderSeeds w h) = {p. inGrid w h p \<and> onBorder w h p}"
proof (intro set_eqI iffI)
  fix p assume "p \<in> set (borderSeeds w h)"
  then show "p \<in> {p. inGrid w h p \<and> onBorder w h p}"
    using assms by (auto simp: borderSeeds_def inGrid_def onBorder_def)
next
  fix p assume a: "p \<in> {p. inGrid w h p \<and> onBorder w h p}"
  obtain x y where p: "p = (x, y)" by (cases p)
  from a have b: "0 \<le> x" "x < w" "0 \<le> y" "y < h"
    and o: "x = 0 \<or> x = w - 1 \<or> y = 0 \<or> y = h - 1"
    by (auto simp: inGrid_def onBorder_def p)
  show "p \<in> set (borderSeeds w h)"
  proof (cases "y = 0 \<or> y = h - 1")
    case True
    then show ?thesis using b by (auto simp: borderSeeds_def p)
  next
    case False
    with o b have "x = 0 \<or> x = w - 1" "1 \<le> y" "y \<le> h - 2" by auto
    then show ?thesis by (auto simp: borderSeeds_def p)
  qed
qed

lemma seeding_pushIf:
  assumes "\<forall>p \<in> set ps. inGrid w h p"
  shows "foldl (addToQueue w t d0) qv ps = foldl (pushIf w h (matchAt d0 w t)) qv ps"
  using assms
  by (induction ps arbitrary: qv) (simp_all add: addToQueue_pushIf [OF sameRGB_refl, of w h])

lemma pass1_run:
  assumes pos: "0 < w" "0 < h"
  shows "\<exists>q. pass1 w h t d0 = Some (clearAlpha w d0 q) \<and> set q = borderRegion w h t d0 \<and>
           (\<forall>p \<in> set q. inGrid w h p)"
proof -
  let ?ok = "matchAt d0 w t"
  let ?S = "{s. inGrid w h s \<and> onBorder w h s \<and> ?ok s}"
  let ?R = "region w h ?ok ?S"
  let ?z = "replicate (nat (w * h)) (0 :: u8)"
  let ?r = "foldl (pushIf w h ?ok) ([], ?z) (borderSeeds w h)"
  have grid: "\<forall>p \<in> set (borderSeeds w h). inGrid w h p"
    using set_borderSeeds [OF pos] by auto
  have seed: "foldl (addToQueue w t d0) ([], ?z) (borderSeeds w h) = ?r"
    by (rule seeding_pushIf [OF grid])
  have q0: "qvInv w h ?ok {} ?R [] ?z"
    by (simp add: qvInv_def isVisited_replicate)
  have inR: "\<forall>n \<in> set (borderSeeds w h). inGrid w h n \<and> ?ok n \<and> n \<notin> {} \<longrightarrow> n \<in> ?R"
    using set_borderSeeds [OF pos] by (auto simp: region_def)
  from pushes_inv [OF q0 inR]
  have qv: "qvInv w h ?ok {} ?R (fst ?r) (snd ?r)"
    and vis: "\<forall>n \<in> set (borderSeeds w h). inGrid w h n \<and> ?ok n \<longrightarrow> isVisited (snd ?r) (idx w n)"
    by blast+
  have sub: "?S \<subseteq> set (fst ?r)"
  proof
    fix s assume s: "s \<in> ?S"
    then have "s \<in> set (borderSeeds w h)" using set_borderSeeds [OF pos] by simp
    with vis s have "isVisited (snd ?r) (idx w s)" by blast
    with qvInv_visited [OF qv, of s] s show "s \<in> set (fst ?r)" by simp
  qed
  let ?s0 = "\<lparr> rs_queue = fst ?r, rs_head = 0, rs_visited = snd ?r, rs_data = d0 \<rparr>"
  have "remInv w h t d0 ?S ?s0"
    unfolding remInv_def fillInv_def using qv sub by (simp add: clearAlpha_def)
  from removeLoop_total [OF this] obtain s' where
    run: "removeLoop w h t ?s0 = Some s'"
    and inv': "remInv w h t d0 ?S s'"
    and hd: "rs_head s' = length (rs_queue s')" by blast
  from inv' have fi: "fillInv w h ?ok {} ?S (rs_queue s') (length (rs_queue s')) (rs_visited s')"
    and da: "rs_data s' = clearAlpha w d0 (rs_queue s')"
    by (simp_all add: remInv_def hd)
  from fill_exit [OF fi] have "set (rs_queue s') = ?R" by simp
  moreover have "pass1 w h t d0 = Some (rs_data s')"
    using run by (simp add: pass1_def seed case_prod_unfold)
  moreover have "\<forall>p \<in> set (rs_queue s'). inGrid w h p"
    using fi qvInv_queue(1) unfolding fillInv_def by blast
  ultimately show ?thesis using da unfolding borderRegion_def by metis
qed

lemma clearAlpha_rd:
  "rd (clearAlpha w d ps) j =
     (if \<exists>p \<in> set ps. j = idx w p * 4 + 3 then map_option (\<lambda>_. 0) (rd d j) else rd d j)"
proof (induction ps rule: rev_induct)
  case Nil
  then show ?case by (simp add: clearAlpha_def)
next
  case (snoc p ps)
  have "clearAlpha w d (ps @ [p]) = wr (clearAlpha w d ps) (idx w p * 4 + 3) 0"
    by (simp add: clearAlpha_def)
  then show ?case using snoc by (auto simp: rd_wr option.map_comp comp_def)
qed

lemma length_clearAlpha [simp]: "length (clearAlpha w d ps) = length d"
  by (induction ps rule: rev_induct) (simp_all add: clearAlpha_def)

lemma alpha_in_buffer:
  assumes "length d = nat (w * h * 4)" "inGrid w h p"
  shows "\<exists>a. alphaAt d w p = Some a"
proof -
  from idx_range [OF assms(2)] have "0 \<le> idx w p" "idx w p * 4 + 3 < w * h * 4" by auto
  with assms(1) show ?thesis by (auto simp: alphaAt_def rd_def)
qed


lemma colorDistance_less_20:
  "colorDistance r1 g1 b1 r2 g2 b2 < REMOVE_COLOR_THRESHOLD \<longleftrightarrow>
     (r1 - r2)\<^sup>2 + (g1 - g2)\<^sup>2 + (b1 - b2)\<^sup>2 < 400"
  using colorDistance_less_iff [of 20 r1 g1 b1 r2 g2 b2] by (simp add: REMOVE_COLOR_THRESHOLD_def)

lemma hex_white: "hexToRgb ''#ffffff'' = Some \<lparr> rgb_r = 255, rgb_g = 255, rgb_b = 255 \<rparr>"
  by (simp add: hexToRgb_def stripHash_def isHexDigit_def parseInt16_def hexDigitVal_def)

lemma pass1_facts:
  assumes pos: "0 < w" "0 < h" and len: "length d = nat (w * h * 4)"
  shows "\<exists>data1. pass1 w h t d = Some data1 \<and> length data1 = length d \<and>
           (\<forall>p. inGrid w h p \<longrightarrow>
              alphaAt data1 w p = (if p \<in> borderRegion w h t d then Some 0 else alphaAt d w p)) \<and>
           (\<forall>j. j mod 4 \<noteq> 3 \<longrightarrow> rd data1 j = rd d j) \<and>
           ((\<forall>p. inGrid w h p \<longrightarrow> matchAt d w t p) \<longrightarrow>
              (\<forall>p. inGrid w h p \<longrightarrow> alphaAt data1 w p = Some 0))"
proof -
  from pass1_run [OF pos, of t d] obtain q where
    run: "pass1 w h t d = Some (clearAlpha w d q)"
    and qs: "set q = borderRegion w h t d"
    and qg: "\<forall>p \<in> set q. inGrid w h p" by blast
  let ?d1 = "clearAlpha w d q"
  have alpha: "alphaAt ?d1 w p = (if p \<in> borderRegion w h t d then Some 0 else alphaAt d w p)"
    if g: "inGrid w h p" for p
  proof -
    have "(\<exists>p' \<in> set q. idx w p * 4 + 3 = idx w p' * 4 + 3) \<longleftrightarrow> p \<in> set q"
      using idx_inj [OF g] qg by auto
    moreover from alpha_in_buffer [OF len g] obtain a where "alphaAt d w p = Some a" by blast
    ultimately show ?thesis
      by (simp add: alphaAt_def clearAlpha_rd qs)
  qed
  have rgb: "\<forall>j. j mod 4 \<noteq> 3 \<longrightarrow> rd ?d1 j = rd d j"
    using sameRGB_clearAlpha [of w d q] by (simp add: sameRGB_def)
  have solid: "alphaAt ?d1 w p = Some 0"
    if all: "\<forall>p. inGrid w h p \<longrightarrow> matchAt d w t p" and g: "inGrid w h p" for p
  proof -
    have o: "inGrid w h (0, 0)" "onBorder w h (0, 0)" using pos by (simp_all add: inGrid_def onBorder_def)
    from grid_connected [OF all g] have "p \<in> region w h (matchAt d w t) {(0, 0)}" .
    then have "p \<in> borderRegion w h t d"
      using o all unfolding borderRegion_def region_def by auto
    with alpha [OF g] show ?thesis by simp
  qed
  show ?thesis using run alpha rgb solid by (intro exI [of _ ?d1]) simp
qed

text \<open>
  Claim C2.  For an image of positive size with its RGBA buffer and a target colour that
  parses, Pass 1 returns a buffer of the same length in which a pixel's alpha is 0 when
  the pixel lies in the 4-connected region of matching pixels (distance to the target
  below 20) reachable from the matching pixels of the four borders, and is the input's
  alpha otherwise, matching or not; colour channels are kept.  With feather 0 this
  buffer is the result of \<open>removeImageBackground\<close>, and when every pixel matches, every
  alpha is 0.
\<close>

theorem pass1_border_region:
  assumes "0 < img_width img" "0 < img_height img"
    and "length (img_data img) = nat (img_width img * img_height img * 4)"
    and "hexToRgb hexColor = Some targetRgb"
  shows "\<exists>data1.
           pass1 (img_width img) (img_height img) targetRgb (img_data img) = Some data1 \<and>
           removeImageBackground img hexColor 0 = Some (img\<lparr>img_data := data1\<rparr>) \<and>
           length data1 = length (img_data img) \<and>
           (\<forall>p. inGrid (img_width img) (img_height img) p \<longrightarrow>
              alphaAt data1 (img_width img) p =
                (if p \<in> borderRegion (img_width img) (img_height img) targetRgb (img_data img)
                 then Some 0 else alphaAt (img_data img) (img_width img) p)) \<and>
           (\<forall>j. j mod 4 \<noteq> 3 \<longrightarrow> rd data1 j = rd (img_data img) j) \<and>
           ((\<forall>p. inGrid (img_width img) (img_height img) p \<longrightarrow>
                matchAt (img_data img) (img_width img) targetRgb p) \<longrightarrow>
              (\<forall>p. inGrid (img_width img) (img_height img) p \<longrightarrow>
                 alphaAt data1 (img_width img) p = Some 0))"
proof -
  from pass1_facts [OF assms(1-3), of targetRgb] obtain data1 where
    d: "pass1 (img_width img) (img_height img) targetRgb (img_data img) = Some data1"
    and rest: "length data1 = length (img_data img) \<and>
           (\<forall>p. inGrid (img_width img) (img_height img) p \<longrightarrow>
              alphaAt data1 (img_width img) p =
                (if p \<in> borderRegion (img_width img) (img_height img) targetRgb (img_data img)
                 then Some 0 else alphaAt (img_data img) (img_width img) p)) \<and>
           (\<forall>j. j mod 4 \<noteq> 3 \<longrightarrow> rd data1 j = rd (img_data img) j) \<and>
           ((\<forall>p. inGrid (img_width img) (img_height img) p \<longrightarrow>
                matchAt (img_data img) (img_width img) targetRgb p) \<longrightarrow>
              (\<forall>p. inGrid (img_width img) (img_height img) p \<longrightarrow>
                 alphaAt data1 (img_width img) p = Some 0))"
    by blast
  have "removeImageBackground img hexColor 0 = Some (img\<lparr>img_data := data1\<rparr>)"
    using assms(4) d by (simp add: removeImageBackground_def Let_def)
  with d rest show ?thesis by blast
qed


text \<open>
  A 5 x 5 image: a white outer ring, a black inner ring, a white centre.  With the
  target \<open>#ffffff\<close> and feather 0 the outer ring becomes transparent and the centre,
  which matches the target but is enclosed by the black ring, keeps its alpha of 255.
\<close>

abbreviation islandData :: "u8 list" where
  "islandData \<equiv>
     [255, 255, 255, 255, 255, 255, 255, 255, 255, 255, 255, 255, 255, 255, 255, 255, 255, 255, 255, 255,
      255, 255, 255, 255, 0, 0, 0, 255, 0, 0, 0, 255, 0, 0, 0, 255, 255, 255, 255, 255,
      255, 255, 255, 255, 0, 0, 0, 255, 255, 255, 255, 255, 0, 0, 0, 255, 255, 255, 255, 255,
      255, 255, 255, 255, 0, 0, 0, 255, 0, 0, 0, 255, 0, 0, 0, 255, 255, 255, 255, 255,
      255, 255, 255, 255, 255, 255, 255, 255, 255, 255, 255, 255, 255, 255, 255, 255, 255, 255, 255, 255]"

abbreviation islandCleared :: "u8 list" where
  "islandCleared \<equiv>
     [255, 255, 255, 0, 255, 255, 255, 0, 255, 255, 255, 0, 255, 255, 255, 0, 255, 255, 255, 0,
      255, 255, 255, 0, 0, 0, 0, 255, 0, 0, 0, 255, 0, 0, 0, 255, 255, 255, 255, 0,
      255, 255, 255, 0, 0, 0, 0, 255, 255, 255, 255, 255, 0, 0, 0, 255, 255, 255, 255, 0,
      255, 255, 255, 0, 0, 0, 0, 255, 0, 0, 0, 255, 0, 0, 0, 255, 255, 255, 255, 0,
      255, 255, 255, 0, 255, 255, 255, 0, 255, 255, 255, 0, 255, 255, 255, 0, 255, 255, 255, 0]"

abbreviation islandImage :: ImageFile where
  "islandImage \<equiv> \<lparr> img_id = ''i'', img_name = ''island.png'', img_width = 5, img_height = 5,
     img_data = islandData \<rparr>"

abbreviation white :: RGB where
  "white \<equiv> \<lparr> rgb_r = 255, rgb_g = 255, rgb_b = 255 \<rparr>"

lemma island_pass1: "pass1 5 5 white islandData = Some islandCleared"
  by (simp add: pass1_def borderSeeds_def addToQueue_def Let_def isVisited_def rd_def markVisited_def
      wr_def colorMatch_def colorDistance_less_20 removeLoop.simps removeStep_def directions_def
      upto.simps)

theorem pass1_border_region_witness:
  "removeImageBackground islandImage ''#ffffff'' 0 = Some (islandImage\<lparr>img_data := islandCleared\<rparr>) \<and>
   (0, 0) \<in> borderRegion 5 5 white islandData \<and>
   matchAt islandData 5 white (2, 2) \<and>
   (2, 2) \<notin> borderRegion 5 5 white islandData \<and>
   alphaAt islandCleared 5 (2, 2) = Some 255"
proof -
  have h: "0 < img_width islandImage" "0 < img_height islandImage"
    "length (img_data islandImage) = nat (img_width islandImage * img_height islandImage * 4)"
    by simp_all
  from pass1_border_region [OF h hex_white, unfolded ImageFile.select_convs] obtain data1 where
    p: "pass1 5 5 white islandData = Some data1"
    and r: "removeImageBackground islandImage ''#ffffff'' 0 = Some (islandImage\<lparr>img_data := data1\<rparr>)"
    and a: "\<forall>p. inGrid 5 5 p \<longrightarrow> alphaAt data1 5 p =
        (if p \<in> borderRegion 5 5 white islandData then Some 0 else alphaAt islandData 5 p)"
    by blast
  from p island_pass1 have d: "data1 = islandCleared" by simp
  have g: "inGrid 5 5 (0, 0)" "inGrid 5 5 (2, 2)" by (simp_all add: inGrid_def)
  have v: "alphaAt islandCleared 5 (0, 0) = Some 0" "alphaAt islandData 5 (0, 0) = Some 255"
    "alphaAt islandCleared 5 (2, 2) = Some 255"
    by (simp_all add: alphaAt_def idx_def rd_def)
  have m: "matchAt islandData 5 white (2, 2)"
    by (simp add: matchAt_def idx_def rd_def colorMatch_def colorDistance_less_20)
  from a g v have "(0, 0) \<in> borderRegion 5 5 white islandData"
    unfolding d by (metis option.inject zero_neq_numeral)
  moreover from a g v have "(2, 2) \<notin> borderRegion 5 5 white islandData"
    unfolding d by (metis option.inject zero_neq_numeral)
  ultimately show ?thesis using r m v unfolding d by simp
qed

subsection \<open>Rounding to a double\<close>

lemma roundHalfEven_near: "\<bar>real_of_int (roundHalfEven v) - v\<bar> \<le> 1 / 2"
  unfolding roundHalfEven_def Let_def by (auto; linarith)

lemma roundHalfEven_ge_int: "real_of_int m \<le> v \<Longrightarrow> m \<le> roundHalfEven v"
  unfolding roundHalfEven_def Let_def by (auto; linarith)

lemma pow2_powr: "pow2 e = 2 powr real_of_int e"
  by (simp add: pow2_def powr_real_of_int divide_inverse)

lemma pow2_pos: "0 < pow2 e"
  by (simp add: pow2_powr)

lemma pow2_add: "pow2 (a + b) = pow2 a * pow2 b"
  by (simp add: pow2_powr powr_add)

lemma pow2_mono: "a \<le> b \<Longrightarrow> pow2 a \<le> pow2 b"
  by (simp add: pow2_powr)

lemma binade_eq:
  assumes "pow2 e \<le> \<bar>v\<bar>" "\<bar>v\<bar> < pow2 (e + 1)" "- 1022 \<le> e"
  shows "binade v = e"
proof -
  have p: "0 < \<bar>v\<bar>" using assms(1) pow2_pos [of e] by linarith
  have "\<lfloor>log 2 \<bar>v\<bar>\<rfloor> = e"
    using assms(1,2) p by (simp add: floor_log_eq_powr_iff pow2_powr)
  then show ?thesis using assms(3) by (simp add: binade_def)
qed

text \<open>How \<open>roundDouble\<close> is computed at a number whose binade is known.\<close>

lemma roundDouble_eval:
  assumes "pow2 e \<le> \<bar>v\<bar>" "\<bar>v\<bar> < pow2 (e + 1)" "- 1022 \<le> e"
  shows "roundDouble v = real_of_int (roundHalfEven (v / pow2 (e - 52))) * pow2 (e - 52)"
proof -
  have "v \<noteq> 0" using assms(1) pow2_pos [of e] by linarith
  then show ?thesis by (simp add: roundDouble_def binade_eq [OF assms] Let_def)
qed

lemma binade_le:
  assumes "v \<noteq> 0" "\<bar>v\<bar> < pow2 k" "- 1021 \<le> k"
  shows "binade v \<le> k - 1"
proof -
  have "log 2 \<bar>v\<bar> < real_of_int k"
    using assms(1,2) by (simp add: pow2_powr log_less_iff)
  then have "\<lfloor>log 2 \<bar>v\<bar>\<rfloor> < k" by linarith
  then show ?thesis using assms(3) by (simp add: binade_def)
qed

lemma binade_lower:
  assumes "1 \<le> \<bar>v\<bar>"
  shows "0 \<le> binade v" "pow2 (binade v) \<le> \<bar>v\<bar>"
proof -
  have p: "0 < \<bar>v\<bar>" using assms by linarith
  have "0 \<le> log 2 \<bar>v\<bar>" using assms by simp
  then have f: "0 \<le> \<lfloor>log 2 \<bar>v\<bar>\<rfloor>" by simp
  then have b: "binade v = \<lfloor>log 2 \<bar>v\<bar>\<rfloor>" by (simp add: binade_def)
  show "0 \<le> binade v" using f b by simp
  have "2 powr real_of_int \<lfloor>log 2 \<bar>v\<bar>\<rfloor> \<le> 2 powr log 2 \<bar>v\<bar>"
    by (intro powr_mono) simp_all
  then show "pow2 (binade v) \<le> \<bar>v\<bar>" using p by (simp add: b pow2_powr)
qed

text \<open>The rounding error is at most half a unit in the last place.\<close>

lemma roundDouble_ulp: "\<bar>roundDouble v - v\<bar> \<le> pow2 (binade v - 53)"
proof (cases "v = 0")
  case True
  then show ?thesis using pow2_pos [of "binade v - 53"] by (simp add: roundDouble_def)
next
  case False
  let ?u = "pow2 (binade v - 52)"
  have u: "0 < ?u" by (rule pow2_pos)
  have "roundDouble v - v = (real_of_int (roundHalfEven (v / ?u)) - v / ?u) * ?u"
    using False u by (simp add: roundDouble_def Let_def field_simps)
  then have "\<bar>roundDouble v - v\<bar> = \<bar>real_of_int (roundHalfEven (v / ?u)) - v / ?u\<bar> * ?u"
    using u by (simp add: abs_mult)
  also have "\<dots> \<le> (1 / 2) * ?u"
    using roundHalfEven_near [of "v / ?u"] u by (intro mult_right_mono) simp_all
  also have "\<dots> = pow2 (binade v - 53)"
    using pow2_add [of "binade v - 53" 1] by (simp add: pow2_def [of 1])
  finally show ?thesis .
qed

lemma roundDouble_abs_error:
  assumes "\<bar>v\<bar> < pow2 k" "- 1021 \<le> k"
  shows "\<bar>roundDouble v - v\<bar> \<le> pow2 (k - 54)"
proof (cases "v = 0")
  case True
  then show ?thesis using pow2_pos [of "k - 54"] by (simp add: roundDouble_def)
next
  case False
  from binade_le [OF False assms] have "binade v - 53 \<le> k - 54" by simp
  from pow2_mono [OF this] roundDouble_ulp [of v] show ?thesis by linarith
qed

lemma roundDouble_rel_error:
  assumes "1 \<le> \<bar>v\<bar>"
  shows "\<bar>roundDouble v - v\<bar> \<le> \<bar>v\<bar> * pow2 (- 53)"
proof -
  have "pow2 (binade v - 53) = pow2 (binade v) * pow2 (- 53)"
    using pow2_add [of "binade v" "- 53"] by simp
  moreover have "0 < pow2 (- 53)" by (rule pow2_pos)
  ultimately have "pow2 (binade v - 53) \<le> \<bar>v\<bar> * pow2 (- 53)"
    using binade_lower(2) [OF assms] by simp
  with roundDouble_ulp [of v] show ?thesis by linarith
qed

lemma roundDouble_nonneg: "0 \<le> v \<Longrightarrow> 0 \<le> roundDouble v"
  using roundHalfEven_ge_int [of 0 "v / pow2 (binade v - 52)"] pow2_pos [of "binade v - 52"]
  by (simp add: roundDouble_def Let_def)

text \<open>Rounding does not go below an integer (of at most 52 bits) that the number reaches.\<close>

lemma roundDouble_ge_int:
  assumes m: "1 \<le> m" "m \<le> 2 ^ 52" and v: "real_of_int m \<le> v"
  shows "real_of_int m \<le> roundDouble v"
proof -
  have v1: "1 \<le> \<bar>v\<bar>" and vp: "0 < v" "\<bar>v\<bar> = v" using m(1) v by linarith+
  note b = binade_lower [OF v1]
  let ?e = "binade v"
  let ?u = "pow2 (?e - 52)"
  have u: "0 < ?u" by (rule pow2_pos)
  have r: "roundDouble v = real_of_int (roundHalfEven (v / ?u)) * ?u"
    using vp(1) by (simp add: roundDouble_def Let_def)
  show ?thesis
  proof (cases "?e \<le> 52")
    case True
    define k where "k = nat (52 - ?e)"
    have uk: "?u * 2 ^ k = 1"
      using pow2_add [of "?e - 52" "52 - ?e"] True by (simp add: k_def pow2_def [of "52 - ?e"] pow2_def [of 0])
    then have "real_of_int m / ?u = real_of_int (m * 2 ^ k)"
      using u by (simp add: field_simps)
    moreover have "real_of_int m / ?u \<le> v / ?u"
      using v u by (simp add: divide_right_mono)
    ultimately have "m * 2 ^ k \<le> roundHalfEven (v / ?u)"
      by (intro roundHalfEven_ge_int) simp
    then have "real_of_int (m * 2 ^ k) \<le> real_of_int (roundHalfEven (v / ?u))"
      by (simp only: of_int_le_iff)
    then have le: "real_of_int (m * 2 ^ k) * ?u \<le> real_of_int (roundHalfEven (v / ?u)) * ?u"
      using u by (intro mult_right_mono) simp_all
    have "real_of_int (m * 2 ^ k) * ?u = real_of_int m * (?u * 2 ^ k)"
      by (simp only: of_int_mult of_int_power of_int_numeral mult.assoc mult.commute [of "2 ^ k"])
    also have "\<dots> = real_of_int m" by (simp only: uk mult_1_right)
    finally show ?thesis using le unfolding r by (simp only:)
  next
    case False
    have ue: "pow2 ?e = pow2 52 * ?u"
      using pow2_add [of 52 "?e - 52"] by simp
    have "pow2 52 * ?u \<le> v" using b(2) vp(2) ue by simp
    then have "pow2 52 \<le> v / ?u" using u by (simp add: field_simps)
    then have "real_of_int (2 ^ 52) \<le> v / ?u" by (simp add: pow2_def)
    then have "2 ^ 52 \<le> roundHalfEven (v / ?u)" by (rule roundHalfEven_ge_int)
    then have "real_of_int (2 ^ 52) \<le> real_of_int (roundHalfEven (v / ?u))"
      by (simp only: of_int_le_iff)
    then have big: "real_of_int (2 ^ 52) \<le> real_of_int (roundHalfEven (v / ?u))" .
    have u1: "1 \<le> ?u"
      using pow2_mono [of 0 "?e - 52"] False by (simp add: pow2_def [of 0])
    have "real_of_int (2 ^ 52) * 1 \<le> real_of_int (roundHalfEven (v / ?u)) * ?u"
      using big u1 by (intro mult_mono) simp_all
    moreover have "real_of_int m \<le> real_of_int (2 ^ 52)"
      using m(2) by (simp only: of_int_le_iff)
    ultimately show ?thesis unfolding r by linarith
  qed
qed

text \<open>
  Against a whole bound of at most 64, such as the two thresholds, the rounded root of
  a whole number compares as the root itself does.
\<close>

lemma sqrt_rounding_less:
  assumes n: "0 \<le> n" and t: "1 \<le> t" "t \<le> 64"
  shows "roundDouble (sqrt (real_of_int n)) < real_of_int t \<longleftrightarrow> sqrt (real_of_int n) < real_of_int t"
proof
  assume a: "roundDouble (sqrt (real_of_int n)) < real_of_int t"
  have t52: "t \<le> 2 ^ 52" using t(2) by simp
  show "sqrt (real_of_int n) < real_of_int t"
  proof (rule ccontr)
    assume "\<not> sqrt (real_of_int n) < real_of_int t"
    then have "real_of_int t \<le> sqrt (real_of_int n)" by simp
    from roundDouble_ge_int [OF t(1) t52 this] a show False by simp
  qed
next
  let ?x = "sqrt (real_of_int n)"
  assume a: "?x < real_of_int t"
  have x0: "0 \<le> ?x" using n by simp
  have "?x\<^sup>2 = real_of_int n" using n by simp
  moreover have "?x\<^sup>2 < (real_of_int t)\<^sup>2"
    using a x0 by (intro power_strict_mono) simp_all
  ultimately have "real_of_int n < real_of_int (t\<^sup>2)" by simp
  then have "n < t\<^sup>2" by (simp only: of_int_less_iff)
  then have "n \<le> t\<^sup>2 - 1" by simp
  then have "real_of_int n \<le> real_of_int (t\<^sup>2 - 1)" by (simp only: of_int_le_iff)
  then have nt: "real_of_int n \<le> (real_of_int t)\<^sup>2 - 1" by simp
  have tr: "1 \<le> real_of_int t" "real_of_int t \<le> 64" using t by simp_all
  have "real_of_int n < (real_of_int t - 1 / 128)\<^sup>2"
  proof -
    have "(real_of_int t - 1 / 128)\<^sup>2 = (real_of_int t)\<^sup>2 - real_of_int t / 64 + 1 / 16384"
      by (simp add: power2_eq_square algebra_simps)
    with nt tr show ?thesis by linarith
  qed
  then have "?x\<^sup>2 < (real_of_int t - 1 / 128)\<^sup>2" using n by simp
  then have near: "?x < real_of_int t - 1 / 128"
    by (rule power2_less_imp_less) (use tr in simp)
  have "\<bar>?x\<bar> < pow2 6" using a tr x0 by (simp add: pow2_def)
  from roundDouble_abs_error [OF this] have "\<bar>roundDouble ?x - ?x\<bar> \<le> pow2 (- 48)" by simp
  moreover have "pow2 (- 48) \<le> 1 / 128" by (simp add: pow2_def)
  ultimately have "roundDouble ?x \<le> ?x + 1 / 128" by linarith
  with near show "roundDouble ?x < real_of_int t" by linarith
qed

lemma colorDistance_rounding:
  "roundDouble (colorDistance r1 g1 b1 r2 g2 b2) < COLOR_THRESHOLD \<longleftrightarrow>
     colorDistance r1 g1 b1 r2 g2 b2 < COLOR_THRESHOLD"
  "roundDouble (colorDistance r1 g1 b1 r2 g2 b2) < REMOVE_COLOR_THRESHOLD \<longleftrightarrow>
     colorDistance r1 g1 b1 r2 g2 b2 < REMOVE_COLOR_THRESHOLD"
  using sqrt_rounding_less [of "(r1 - r2)\<^sup>2 + (g1 - g2)\<^sup>2 + (b1 - b2)\<^sup>2" 35]
    sqrt_rounding_less [of "(r1 - r2)\<^sup>2 + (g1 - g2)\<^sup>2 + (b1 - b2)\<^sup>2" 20]
  by (simp_all add: colorDistance_def COLOR_THRESHOLD_def REMOVE_COLOR_THRESHOLD_def)

subsection \<open>Pass 2 feathers the edge\<close>

text \<open>
  \<open>featherValue\<close> is the byte, if any, that the body of Pass 2 stores in the alpha of
  pixel \<open>p\<close>; it depends on the two snapshots only, not on the buffer being written.
\<close>

definition featherValue ::
  "int \<Rightarrow> int \<Rightarrow> RGB \<Rightarrow> real \<Rightarrow> u8 list \<Rightarrow> u8 list \<Rightarrow> pos \<Rightarrow> u8 option" where
  "featherValue width height targetRgb feather originalData postFloodFillData p =
     (if (case alphaAt postFloodFillData width p of Some a \<Rightarrow> a > 0 | None \<Rightarrow> False) \<and>
         isEdge width height postFloodFillData p
      then
        (case (rd originalData (idx width p * 4), rd originalData (idx width p * 4 + 1),
               rd originalData (idx width p * 4 + 2)) of
           (Some r, Some g, Some b) \<Rightarrow>
             if roundDouble (colorDistance r g b (rgb_r targetRgb) (rgb_g targetRgb) (rgb_b targetRgb))
                  < feather
             then Some (case rd originalData (idx width p * 4 + 3) of
                          Some originalAlpha \<Rightarrow>
                            toUint8Clamp (roundDouble (real_of_int originalAlpha *
                              roundDouble (roundDouble (colorDistance r g b (rgb_r targetRgb)
                                 (rgb_g targetRgb) (rgb_b targetRgb)) / feather)))
                        | None \<Rightarrow> 0)
             else None
         | _ \<Rightarrow> None)
      else None)"

lemma featherPixel_eq:
  "featherPixel w h t F orig post d p =
     (case featherValue w h t F orig post p of Some v \<Rightarrow> wr d (idx w p * 4 + 3) v | None \<Rightarrow> d)"
proof -
  obtain x y where p: "p = (x, y)" by (cases p)
  have ie: "y * w + x = idx w (x, y)" by (simp add: idx_def)
  show ?thesis
    unfolding featherPixel_def featherValue_def p prod.case Let_def ie alphaAt_def
    by (simp split: option.splits)
qed

lemma isEdge_iff:
  "isEdge w h post p \<longleftrightarrow>
     (\<exists>n \<in> set (neighbours p). inGrid w h n \<and> alphaAt post w n = Some 0)"
proof -
  obtain x y where p: "p = (x, y)" by (cases p)
  show ?thesis
    unfolding isEdge_def p prod.case Let_def
    by (simp add: neighbours_def list_ex_iff inGrid_def alphaAt_def idx_def case_prod_unfold)
qed

lemma foldl_feather_length:
  "length (foldl (\<lambda>d p. case fv p of Some v \<Rightarrow> wr d (idx w p * 4 + 3) v | None \<Rightarrow> d) d ps) = length d"
  by (induction ps arbitrary: d) (simp_all split: option.splits)

lemma foldl_feather_rgb:
  assumes "j mod 4 \<noteq> 3"
  shows "rd (foldl (\<lambda>d p. case fv p of Some v \<Rightarrow> wr d (idx w p * 4 + 3) v | None \<Rightarrow> d) d ps) j = rd d j"
proof (induction ps arbitrary: d)
  case Nil
  then show ?case by simp
next
  case (Cons p ps)
  have "(idx w p * 4 + 3) mod 4 = 3" by presburger
  with assms have "j \<noteq> idx w p * 4 + 3" by auto
  then show ?case by (simp add: Cons.IH rd_wr split: option.splits)
qed

lemma foldl_feather_alpha:
  assumes "distinct ps" "\<forall>p \<in> set ps. inGrid w h p" "inGrid w h q"
  shows "rd (foldl (\<lambda>d p. case fv p of Some v \<Rightarrow> wr d (idx w p * 4 + 3) v | None \<Rightarrow> d) d ps)
            (idx w q * 4 + 3) =
         (case (if q \<in> set ps then fv q else None) of
            Some v \<Rightarrow> map_option (\<lambda>_. uint v) (rd d (idx w q * 4 + 3))
          | None \<Rightarrow> rd d (idx w q * 4 + 3))"
  using assms(1,2)
proof (induction ps arbitrary: d)
  case Nil
  then show ?case by simp
next
  case (Cons p ps)
  let ?d1 = "case fv p of Some v \<Rightarrow> wr d (idx w p * 4 + 3) v | None \<Rightarrow> d"
  from Cons.prems have dp: "distinct ps" "\<forall>p \<in> set ps. inGrid w h p" "p \<notin> set ps" "inGrid w h p"
    by auto
  note IH = Cons.IH [OF dp(1,2), of ?d1]
  show ?case
  proof (cases "q = p")
    case True
    with dp(3) have "q \<notin> set ps" by simp
    with IH True show ?thesis by (simp add: rd_wr split: option.splits)
  next
    case False
    with idx_inj [OF assms(3) dp(4)] have "idx w q * 4 + 3 \<noteq> idx w p * 4 + 3" by auto
    then have e: "rd ?d1 (idx w q * 4 + 3) = rd d (idx w q * 4 + 3)"
      by (simp add: rd_wr split: option.splits)
    from IH [unfolded e] False show ?thesis by simp
  qed
qed

lemma pass2_eq:
  "pass2 w h t F orig d =
     foldl (\<lambda>d p. case featherValue w h t F orig d0 p of Some v \<Rightarrow> wr d (idx w p * 4 + 3) v | None \<Rightarrow> d)
       d (pixelOrder w h)" if "d0 = d"
proof -
  have "featherPixel w h t F orig d =
      (\<lambda>d' p. case featherValue w h t F orig d p of Some v \<Rightarrow> wr d' (idx w p * 4 + 3) v | None \<Rightarrow> d')"
    by (intro ext) (rule featherPixel_eq)
  then show ?thesis using that by (simp add: pass2_def Let_def)
qed


lemma uint_byte: "0 \<le> k \<Longrightarrow> k \<le> 255 \<Longrightarrow> uint (word_of_int k :: u8) = k"
  by (simp add: uint_word_of_int_eq take_bit_int_eq_self)

lemma toUint8Clamp_near:
  assumes "0 \<le> v" "v \<le> 255"
  shows "\<bar>real_of_int (uint (toUint8Clamp v)) - v\<bar> \<le> 1 / 2"
proof (cases "v \<le> 0 \<or> v \<ge> 255")
  case True
  with assms have "v = 0 \<or> v = 255" by auto
  then show ?thesis by (auto simp: toUint8Clamp_def simp del: of_int_uint)
next
  case False
  then have r: "0 < v" "v < 255" by auto
  let ?f = "\<lfloor>v\<rfloor>"
  have f: "0 \<le> ?f" "?f \<le> 254" using r by (simp_all add: floor_le_iff le_floor_iff)
  have b: "real_of_int ?f \<le> v" "v < real_of_int ?f + 1" by linarith+
  have u1: "uint (word_of_int ?f :: u8) = ?f"
    by (rule uint_byte) (use f in simp_all)
  have "uint (word_of_int (?f + 1) :: u8) = ?f + 1"
    by (rule uint_byte) (use f in simp_all)
  then have u2: "uint (word_of_int ?f + 1 :: u8) = ?f + 1" by simp
  consider (up) "real_of_int ?f + 0.5 < v" | (down) "v < real_of_int ?f + 0.5"
    | (tie) "v = real_of_int ?f + 0.5" by linarith
  then show ?thesis
  proof cases
    case up
    then have "toUint8Clamp v = word_of_int ?f + 1"
      using False by (simp add: toUint8Clamp_def Let_def)
    then show ?thesis using u2 b up by (simp del: of_int_uint)
  next
    case down
    then have "toUint8Clamp v = word_of_int ?f"
      using False by (simp add: toUint8Clamp_def Let_def)
    then show ?thesis using u1 b down by (simp del: of_int_uint)
  next
    case tie
    then have "toUint8Clamp v = word_of_int ?f \<or> toUint8Clamp v = word_of_int ?f + 1"
      using False by (simp add: toUint8Clamp_def Let_def)
    then show ?thesis using u1 u2 tie by (auto simp del: of_int_uint)
  qed
qed

lemma toUint8Clamp_near_above:
  assumes "0 \<le> v" "v \<le> 255 + 1 / 2"
  shows "\<bar>real_of_int (uint (toUint8Clamp v)) - v\<bar> \<le> 1 / 2"
proof (cases "v \<le> 255")
  case True
  with assms(1) show ?thesis by (rule toUint8Clamp_near)
next
  case False
  then have "toUint8Clamp v = 255" by (simp add: toUint8Clamp_def)
  then show ?thesis using False assms(2) by (simp del: of_int_uint)
qed

lemma pixelAt_reads:
  assumes "pixelAt d i = Some (r, g, b, a)"
  shows "rd d i = Some r" "rd d (i + 1) = Some g" "rd d (i + 2) = Some b" "rd d (i + 3) = Some a"
  using assms by (auto simp: pixelAt_def split: option.splits)

lemma rd_byte:
  assumes "rd d i = Some a"
  shows "0 \<le> a" "a \<le> 255"
proof -
  from assms have a: "a = uint (d ! nat i)" by (auto simp: rd_def split: if_splits)
  show "0 \<le> a" unfolding a by simp
  have "uint (d ! nat i) < 2 ^ 8" using uint_bounded [of "d ! nat i"] by simp
  then show "a \<le> 255" unfolding a by simp
qed

text \<open>
  The double product stays within \<open>2^-40\<close> of the product of the real numbers, hence the
  stored byte within \<open>1/2 + 2^-40\<close> of it.
\<close>

lemma feather_product_error:
  assumes a: "0 \<le> a" "a \<le> 255" and n: "0 \<le> n" and F: "0 < F"
    and lt: "roundDouble (sqrt (real_of_int n)) < F"
  shows "\<bar>real_of_int (uint (toUint8Clamp
            (roundDouble (real_of_int a * roundDouble (roundDouble (sqrt (real_of_int n)) / F)))))
          - real_of_int a * (sqrt (real_of_int n) / F)\<bar> \<le> 1 / 2 + 1 / 2 ^ 40"
proof (cases "n = 0")
  case True
  then show ?thesis by (simp add: roundDouble_def toUint8Clamp_def)
next
  case False
  define D where "D = sqrt (real_of_int n)"
  define d where "d = roundDouble D"
  define x where "x = d / F"
  define q where "q = roundDouble x"
  define y where "y = real_of_int a * q"
  define p where "p = roundDouble y"
  define E where "E = real_of_int a * (D / F)"
  define v where "v = real_of_int (uint (toUint8Clamp p))"
  define c :: real where "c = 1 / 2 ^ 46"
  have c: "0 < c" "c \<le> 1 / 4" "6 * c \<le> 1 / 2 ^ 40" by (simp_all add: c_def)
  have ar: "0 \<le> real_of_int a" "real_of_int a \<le> 255" using a by simp_all
  from False n have "1 \<le> n" by simp
  then have "1 \<le> real_of_int n" by simp
  then have D1: "1 \<le> D" by (simp add: D_def)
  then have Dabs: "1 \<le> \<bar>D\<bar>" by simp
  have eps: "pow2 (- 53) = 1 / 2 ^ 53" by (simp add: pow2_def)
  have e1: "\<bar>d - D\<bar> \<le> D * (1 / 2 ^ 53)"
    using roundDouble_rel_error [OF Dabs] D1 by (simp add: d_def eps)
  have d0: "0 \<le> d" unfolding d_def using D1 by (intro roundDouble_nonneg) simp
  have "D * (1 / 2 ^ 53) \<le> D * (1 / 2)"
    using D1 by (intro mult_left_mono) simp_all
  with e1 have "D / 2 \<le> d" by linarith
  moreover have dF: "d < F" using lt by (simp add: d_def D_def)
  ultimately have "D < 2 * F" by linarith
  then have DF: "D / F \<le> 2" using F by (simp add: field_simps)
  have x0: "0 \<le> x" using d0 F by (simp add: x_def)
  have x1: "x < 1" using dF F by (simp add: x_def)
  have "\<bar>x\<bar> < pow2 0" using x0 x1 by (simp add: pow2_def)
  from roundDouble_abs_error [OF this] have "\<bar>q - x\<bar> \<le> pow2 (- 54)" by (simp add: q_def)
  moreover have "pow2 (- 54) = 1 / 2 ^ 54" by (simp add: pow2_def)
  ultimately have e2: "\<bar>q - x\<bar> \<le> 1 / 2 ^ 54" by simp
  have q0: "0 \<le> q" unfolding q_def using x0 by (rule roundDouble_nonneg)
  have q1: "q \<le> 1 + 1 / 2 ^ 54" using e2 x1 by linarith
  have y0: "0 \<le> y" using ar(1) q0 by (simp add: y_def)
  have "y \<le> 255 * (1 + 1 / 2 ^ 54)"
    unfolding y_def using ar q0 q1 by (intro mult_mono) simp_all
  moreover have "(255::real) * (1 + 1 / 2 ^ 54) \<le> 255 + c" by (simp add: c_def)
  ultimately have y1: "y \<le> 255 + c" by linarith
  have "pow2 8 = 256" by (simp add: pow2_def)
  then have "\<bar>y\<bar> < pow2 8" using y0 y1 c(2) by linarith
  from roundDouble_abs_error [OF this] have "\<bar>p - y\<bar> \<le> pow2 (- 46)" by (simp add: p_def)
  moreover have "pow2 (- 46) = c" by (simp add: pow2_def c_def)
  ultimately have e3: "\<bar>p - y\<bar> \<le> c" by simp
  have p0: "0 \<le> p" unfolding p_def using y0 by (rule roundDouble_nonneg)
  have p1: "p \<le> 255 + 1 / 2" using e3 y1 c(2) by linarith
  from toUint8Clamp_near_above [OF p0 p1] have e4: "\<bar>v - p\<bar> \<le> 1 / 2"
    by (simp only: v_def)
  have "y - real_of_int a * x = real_of_int a * (q - x)"
    by (simp add: y_def right_diff_distrib)
  then have "\<bar>y - real_of_int a * x\<bar> = real_of_int a * \<bar>q - x\<bar>"
    using ar(1) by (simp add: abs_mult)
  also have "\<dots> \<le> 255 * (1 / 2 ^ 54)"
    using ar e2 by (intro mult_mono) simp_all
  also have "\<dots> \<le> c" by (simp add: c_def)
  finally have e5: "\<bar>y - real_of_int a * x\<bar> \<le> c" .
  have "real_of_int a * x - E = real_of_int a * ((d - D) / F)"
    by (simp add: x_def E_def right_diff_distrib diff_divide_distrib)
  then have "\<bar>real_of_int a * x - E\<bar> = real_of_int a * (\<bar>d - D\<bar> / F)"
    using ar(1) F by (simp add: abs_mult)
  also have "\<dots> \<le> 255 * ((D * (1 / 2 ^ 53)) / F)"
    using ar e1 F by (intro mult_mono divide_right_mono) simp_all
  also have "\<dots> = 255 * ((D / F) * (1 / 2 ^ 53))" by simp
  also have "\<dots> \<le> 255 * (2 * (1 / 2 ^ 53))"
    using DF by (intro mult_left_mono mult_right_mono) simp_all
  also have "\<dots> \<le> 4 * c" by (simp add: c_def)
  finally have e6: "\<bar>real_of_int a * x - E\<bar> \<le> 4 * c" .
  have "\<bar>v - E\<bar> \<le> \<bar>v - p\<bar> + \<bar>p - y\<bar> + \<bar>y - real_of_int a * x\<bar> + \<bar>real_of_int a * x - E\<bar>"
    by linarith
  with e3 e4 e5 e6 c(3) have "\<bar>v - E\<bar> \<le> 1 / 2 + 1 / 2 ^ 40" by linarith
  then show ?thesis
    by (simp only: v_def E_def p_def y_def q_def x_def d_def D_def)
qed

lemma pass2_alpha:
  assumes len: "length d1 = nat (w * h * 4)" and g: "inGrid w h p"
    and px: "pixelAt orig (idx w p * 4) = Some (r, g', b, a)"
  shows "alphaAt (pass2 w h t F orig d1) w p =
     (if (\<exists>a1. alphaAt d1 w p = Some a1 \<and> 0 < a1) \<and>
         (\<exists>n \<in> set (neighbours p). inGrid w h n \<and> alphaAt d1 w n = Some 0) \<and>
         roundDouble (colorDistance r g' b (rgb_r t) (rgb_g t) (rgb_b t)) < F
      then Some (uint (toUint8Clamp (roundDouble (real_of_int a *
                   roundDouble (roundDouble (colorDistance r g' b (rgb_r t) (rgb_g t) (rgb_b t)) / F)))))
      else alphaAt d1 w p)"
proof -
  from alpha_in_buffer [OF len g] obtain a1 where a1: "alphaAt d1 w p = Some a1" by blast
  have mem: "p \<in> set (pixelOrder w h)" using g by (simp add: set_pixelOrder)
  have grid: "\<forall>p \<in> set (pixelOrder w h). inGrid w h p" by (simp add: set_pixelOrder)
  note rds = pixelAt_reads [OF px]
  have fv: "featherValue w h t F orig d1 p =
      (if 0 < a1 \<and> (\<exists>n \<in> set (neighbours p). inGrid w h n \<and> alphaAt d1 w n = Some 0) \<and>
         roundDouble (colorDistance r g' b (rgb_r t) (rgb_g t) (rgb_b t)) < F
       then Some (toUint8Clamp (roundDouble (real_of_int a *
                   roundDouble (roundDouble (colorDistance r g' b (rgb_r t) (rgb_g t) (rgb_b t)) / F))))
       else None)"
    by (simp add: featherValue_def a1 rds isEdge_iff)
  have "alphaAt (pass2 w h t F orig d1) w p =
      (case featherValue w h t F orig d1 p of
         Some v \<Rightarrow> map_option (\<lambda>_. uint v) (alphaAt d1 w p) | None \<Rightarrow> alphaAt d1 w p)"
    unfolding alphaAt_def pass2_eq [OF refl]
    using foldl_feather_alpha [OF distinct_pixelOrder grid g, of "featherValue w h t F orig d1" d1] mem
    by simp
  note main = this
  show ?thesis
  proof (cases "0 < a1 \<and> (\<exists>n \<in> set (neighbours p). inGrid w h n \<and> alphaAt d1 w n = Some 0) \<and>
         roundDouble (colorDistance r g' b (rgb_r t) (rgb_g t) (rgb_b t)) < F")
    case True
    then have "featherValue w h t F orig d1 p =
        Some (toUint8Clamp (roundDouble (real_of_int a *
                   roundDouble (roundDouble (colorDistance r g' b (rgb_r t) (rgb_g t) (rgb_b t)) / F))))"
      unfolding fv by simp
    with main a1 have "alphaAt (pass2 w h t F orig d1) w p =
        Some (uint (toUint8Clamp (roundDouble (real_of_int a *
                   roundDouble (roundDouble (colorDistance r g' b (rgb_r t) (rgb_g t) (rgb_b t)) / F)))))"
      by simp
    with True a1 show ?thesis by simp
  next
    case False
    then have "featherValue w h t F orig d1 p = None"
      unfolding fv by simp
    with main have "alphaAt (pass2 w h t F orig d1) w p = alphaAt d1 w p" by simp
    with False a1 show ?thesis by auto
  qed
qed

lemma pass2_rgb:
  assumes "j mod 4 \<noteq> 3"
  shows "rd (pass2 w h t F orig d1) j = rd d1 j"
  unfolding pass2_eq [OF refl] by (rule foldl_feather_rgb [OF assms])

lemma feather_near:
  assumes px: "pixelAt orig i = Some (r, g, b, a)" and F: "0 < F"
    and lt: "roundDouble (colorDistance r g b R G B) < F"
  shows "\<bar>real_of_int (uint (toUint8Clamp (roundDouble (real_of_int a *
             roundDouble (roundDouble (colorDistance r g b R G B) / F)))))
          - real_of_int a * (colorDistance r g b R G B / F)\<bar> \<le> 1 / 2 + 1 / 2 ^ 40"
proof -
  note ab = rd_byte [OF pixelAt_reads(4) [OF px]]
  have n: "0 \<le> (r - R)\<^sup>2 + (g - G)\<^sup>2 + (b - B)\<^sup>2" by simp
  from feather_product_error [OF ab n F] lt show ?thesis
    unfolding colorDistance_def by blast
qed

subsection \<open>Two edge pixels\<close>

lemma sqrt_441: "sqrt 441 = 21"
  by (rule real_sqrt_unique) simp_all

lemma sqrt_529: "sqrt 529 = 23"
  by (rule real_sqrt_unique) simp_all

text \<open>The doubles of the two computations.\<close>

lemma double_21: "roundDouble 21 = 21"
  using roundDouble_eval [of 4 21] by (simp add: roundHalfEven_def pow2_def)

lemma double_23: "roundDouble 23 = 23"
  using roundDouble_eval [of 4 23] by (simp add: roundHalfEven_def pow2_def)

lemma double_21_25: "roundDouble (21 / 25) = 7566047373982433 / 9007199254740992"
  using roundDouble_eval [of "- 1" "21 / 25"] by (simp add: roundHalfEven_def pow2_def)

lemma double_255_21_25:
  "roundDouble (255 * (7566047373982433 / 9007199254740992)) = 3768246250713907 / 17592186044416"
  using roundDouble_eval [of 7 "255 * (7566047373982433 / 9007199254740992)"]
  by (simp add: roundHalfEven_def pow2_def)

lemma double_23_30: "roundDouble (23 / 30) = 6905519428634761 / 9007199254740992"
  using roundDouble_eval [of "- 1" "23 / 30"] by (simp add: roundHalfEven_def pow2_def)

lemma double_165_23_30:
  "roundDouble (165 * (6905519428634761 / 9007199254740992)) = 8901646138474497 / 70368744177664"
  using roundDouble_eval [of 6 "165 * (6905519428634761 / 9007199254740992)"]
  by (simp add: roundHalfEven_def pow2_def)

lemma stored_214:
  "toUint8Clamp (roundDouble (255 * roundDouble (roundDouble 21 / 25))) = 214"
  unfolding double_21 double_21_25 double_255_21_25
  by (simp add: toUint8Clamp_def)

lemma stored_127:
  "toUint8Clamp (roundDouble (165 * roundDouble (roundDouble 23 / 30))) = 127"
  unfolding double_23 double_23_30 double_165_23_30
  by (simp add: toUint8Clamp_def)

text \<open>
  A product that the real numbers put on a tie the other way: 45 * (7 / 10) = 31.5 would be
  stored as 32, and the double product lies below it.
\<close>

lemma stored_31:
  "toUint8Clamp (roundDouble (45 * roundDouble (roundDouble 7 / 10))) = 31 \<and>
   toUint8Clamp (45 * (7 / 10)) = 32"
proof -
  have a: "roundDouble 7 = 7"
    using roundDouble_eval [of 2 7] by (simp add: roundHalfEven_def pow2_def)
  have b: "roundDouble (7 / 10) = 3152519739159347 / 4503599627370496"
    using roundDouble_eval [of "- 1" "7 / 10"] by (simp add: roundHalfEven_def pow2_def)
  have c: "roundDouble (45 * (3152519739159347 / 4503599627370496))
      = 8866461766385663 / 281474976710656"
    using roundDouble_eval [of 4 "45 * (3152519739159347 / 4503599627370496)"]
    by (simp add: roundHalfEven_def pow2_def)
  show ?thesis
    unfolding a b c by (simp add: toUint8Clamp_def)
qed

abbreviation edgeData :: "u8 list" where
  "edgeData \<equiv> [255, 255, 255, 255, 234, 255, 255, 255]"

abbreviation edgeImage :: ImageFile where
  "edgeImage \<equiv> \<lparr> img_id = ''e'', img_name = ''edge.png'', img_width = 2, img_height = 1,
     img_data = edgeData \<rparr>"

lemma edge_pass1: "pass1 2 1 white edgeData = Some [255, 255, 255, 0, 234, 255, 255, 255]"
  by (simp add: pass1_def borderSeeds_def addToQueue_def Let_def isVisited_def rd_def markVisited_def
      wr_def colorMatch_def colorDistance_less_20 removeLoop.simps removeStep_def directions_def
      upto.simps)

abbreviation tieData :: "u8 list" where
  "tieData \<equiv> [255, 255, 255, 255, 232, 255, 255, 165]"

abbreviation tieImage :: ImageFile where
  "tieImage \<equiv> \<lparr> img_id = ''t'', img_name = ''tie.png'', img_width = 2, img_height = 1,
     img_data = tieData \<rparr>"

lemma tie_pass1: "pass1 2 1 white tieData = Some [255, 255, 255, 0, 232, 255, 255, 165]"
  by (simp add: pass1_def borderSeeds_def addToQueue_def Let_def isVisited_def rd_def markVisited_def
      wr_def colorMatch_def colorDistance_less_20 removeLoop.simps removeStep_def directions_def
      upto.simps)

text \<open>
  Claim C3 fails as stated: the buffer holds bytes, so the stored alpha is the product
  rounded.  In the 2 x 1 image with pixels (255, 255, 255, 255) and (234, 255, 255, 255),
  target \<open>#ffffff\<close> and feather 25, Pass 1 removes the first pixel; the second is opaque,
  next to it, and at distance 21 < 25, and its alpha becomes 214.  The product of claim
  C3 is 255 * (21 / 25) = 214.2, and the double that the code computes for it is no
  whole number either.
\<close>

theorem feather_alpha_counterexample:
  "pass1 2 1 white edgeData = Some [255, 255, 255, 0, 234, 255, 255, 255] \<and>
   colorDistance 234 255 255 255 255 255 = 21 \<and>
   removeImageBackground edgeImage ''#ffffff'' 25
     = Some (edgeImage\<lparr>img_data := [255, 255, 255, 0, 234, 255, 255, 214]\<rparr>) \<and>
   real_of_int 214 \<noteq> real_of_int 255 * (21 / 25) \<and>
   real_of_int 214 \<noteq> roundDouble (real_of_int 255 * roundDouble (roundDouble 21 / 25))"
proof -
  have d: "colorDistance 234 255 255 255 255 255 = 21"
    by (simp add: colorDistance_def sqrt_441)
  have lt: "roundDouble 21 < 25"
    by (simp add: double_21)
  have r: "removeImageBackground edgeImage ''#ffffff'' 25
     = Some (edgeImage\<lparr>img_data := [255, 255, 255, 0, 234, 255, 255, 214]\<rparr>)"
    by (simp add: removeImageBackground_def hex_white edge_pass1 pass2_def pixelOrder_def upto.simps
        featherPixel_def Let_def rd_def isEdge_def directions_def colorDistance_def sqrt_441 wr_def
        lt stored_214)
  have v: "roundDouble (255 * roundDouble (roundDouble 21 / 25)) = 3768246250713907 / 17592186044416"
    unfolding double_21 double_21_25 by (rule double_255_21_25)
  have n: "real_of_int 214 \<noteq> roundDouble (real_of_int 255 * roundDouble (roundDouble 21 / 25))"
    unfolding of_int_numeral v by simp
  show ?thesis using edge_pass1 d r n by simp
qed

text \<open>
  Claim C3 as amended.  For an image of positive size with its RGBA buffer and a target
  colour that parses: when \<open>feather \<le> 0\<close> the result is the buffer of Pass 1 (Pass 2 is
  skipped); when \<open>feather > 0\<close>, a pixel whose alpha after Pass 1 is positive, that has a
  4-neighbour in the image with alpha 0 after Pass 1, and whose original colour is at a
  distance \<open>d < feather\<close> from the target, \<open>d\<close> being the double nearest to the Euclidean
  distance, gets as alpha the byte that a \<^verbatim>\<open>Uint8ClampedArray\<close> stores for the double
  \<open>originalAlpha * (d / feather)\<close>, quotient and product each rounded to the nearest
  double: that double rounded to the nearest integer, ties to even.  The byte is within
  \<open>1/2 + 2^-40\<close> of the product \<open>originalAlpha * (distance / feather)\<close> of the real
  numbers.  Every other pixel keeps its alpha of Pass 1, and colour channels are kept.
  A stored byte differs from a number between 0 and 255 by at most 1/2.
\<close>

theorem feather_edge_alpha:
  assumes "0 < img_width img" "0 < img_height img"
    and "length (img_data img) = nat (img_width img * img_height img * 4)"
    and "hexToRgb hexColor = Some targetRgb"
  shows "\<exists>data1 out.
     pass1 (img_width img) (img_height img) targetRgb (img_data img) = Some data1 \<and>
     removeImageBackground img hexColor feather = Some (img\<lparr>img_data := out\<rparr>) \<and>
     (feather \<le> 0 \<longrightarrow> out = data1) \<and>
     (0 < feather \<longrightarrow>
        (\<forall>p r g b a.
           inGrid (img_width img) (img_height img) p \<and>
           pixelAt (img_data img) (idx (img_width img) p * 4) = Some (r, g, b, a) \<longrightarrow>
           alphaAt out (img_width img) p =
             (if (\<exists>a1. alphaAt data1 (img_width img) p = Some a1 \<and> 0 < a1) \<and>
                 (\<exists>n \<in> set (neighbours p). inGrid (img_width img) (img_height img) n \<and>
                    alphaAt data1 (img_width img) n = Some 0) \<and>
                 roundDouble (colorDistance r g b (rgb_r targetRgb) (rgb_g targetRgb) (rgb_b targetRgb))
                   < feather
              then Some (uint (toUint8Clamp (roundDouble (real_of_int a *
                     roundDouble (roundDouble (colorDistance r g b (rgb_r targetRgb) (rgb_g targetRgb)
                        (rgb_b targetRgb)) / feather)))))
              else alphaAt data1 (img_width img) p) \<and>
           (roundDouble (colorDistance r g b (rgb_r targetRgb) (rgb_g targetRgb) (rgb_b targetRgb))
              < feather \<longrightarrow>
            \<bar>real_of_int (uint (toUint8Clamp (roundDouble (real_of_int a *
                     roundDouble (roundDouble (colorDistance r g b (rgb_r targetRgb) (rgb_g targetRgb)
                        (rgb_b targetRgb)) / feather)))))
              - real_of_int a *
                  (colorDistance r g b (rgb_r targetRgb) (rgb_g targetRgb) (rgb_b targetRgb) / feather)\<bar>
              \<le> 1 / 2 + 1 / 2 ^ 40)) \<and>
        (\<forall>j. j mod 4 \<noteq> 3 \<longrightarrow> rd out j = rd data1 j)) \<and>
     (\<forall>v. 0 \<le> v \<and> v \<le> 255 \<longrightarrow> \<bar>real_of_int (uint (toUint8Clamp v)) - v\<bar> \<le> 1 / 2)"
proof -
  let ?w = "img_width img" and ?h = "img_height img" and ?d = "img_data img"
  from pass1_facts [OF assms(1-3), of targetRgb] obtain data1 where
    d: "pass1 ?w ?h targetRgb ?d = Some data1" and len: "length data1 = length ?d"
    by blast
  let ?out = "if feather > 0 then pass2 ?w ?h targetRgb feather ?d data1 else data1"
  have r: "removeImageBackground img hexColor feather = Some (img\<lparr>img_data := ?out\<rparr>)"
    using assms(4) d by (simp add: removeImageBackground_def Let_def)
  have len1: "length data1 = nat (?w * ?h * 4)" using len assms(3) by simp
  have skip: "feather \<le> 0 \<longrightarrow> ?out = data1" by simp
  have alpha: "alphaAt ?out ?w p =
             (if (\<exists>a1. alphaAt data1 ?w p = Some a1 \<and> 0 < a1) \<and>
                 (\<exists>n \<in> set (neighbours p). inGrid ?w ?h n \<and> alphaAt data1 ?w n = Some 0) \<and>
                 roundDouble (colorDistance r g b (rgb_r targetRgb) (rgb_g targetRgb) (rgb_b targetRgb))
                   < feather
              then Some (uint (toUint8Clamp (roundDouble (real_of_int a *
                     roundDouble (roundDouble (colorDistance r g b (rgb_r targetRgb) (rgb_g targetRgb)
                        (rgb_b targetRgb)) / feather)))))
              else alphaAt data1 ?w p)"
    if "0 < feather" "inGrid ?w ?h p" "pixelAt ?d (idx ?w p * 4) = Some (r, g, b, a)" for p r g b a
    using pass2_alpha [OF len1 that(2,3), of targetRgb feather] that(1) by simp
  have close: "\<bar>real_of_int (uint (toUint8Clamp (roundDouble (real_of_int a *
                     roundDouble (roundDouble (colorDistance r g b (rgb_r targetRgb) (rgb_g targetRgb)
                        (rgb_b targetRgb)) / feather)))))
              - real_of_int a *
                  (colorDistance r g b (rgb_r targetRgb) (rgb_g targetRgb) (rgb_b targetRgb) / feather)\<bar>
              \<le> 1 / 2 + 1 / 2 ^ 40"
    if "0 < feather" "pixelAt ?d (idx ?w p * 4) = Some (r, g, b, a)"
      "roundDouble (colorDistance r g b (rgb_r targetRgb) (rgb_g targetRgb) (rgb_b targetRgb)) < feather"
    for p r g b a
    using feather_near [OF that(2,1,3)] .
  have rgb: "rd ?out j = rd data1 j" if "j mod 4 \<noteq> 3" for j
    using pass2_rgb [OF that] by simp
  have near: "\<forall>v. 0 \<le> v \<and> v \<le> 255 \<longrightarrow> \<bar>real_of_int (uint (toUint8Clamp v)) - v\<bar> \<le> 1 / 2"
    using toUint8Clamp_near by blast
  show ?thesis
    apply (rule exI [of _ data1], rule exI [of _ ?out])
    using d r skip alpha close rgb near by blast
qed

text \<open>
  The 2 x 1 image with pixels (255, 255, 255, 255) and (232, 255, 255, 165), target
  \<open>#ffffff\<close> and feather 30: the second pixel is at distance 23 and its alpha becomes 127,
  the removed pixel's stays 0.  The product of the real numbers is 165 * (23 / 30) = 126.5,
  which would be stored as 126; the double product lies above it.
\<close>

theorem feather_edge_alpha_witness:
  "\<exists>out. removeImageBackground tieImage ''#ffffff'' 30 = Some (tieImage\<lparr>img_data := out\<rparr>) \<and>
     alphaAt out 2 (1, 0) = Some 127 \<and> alphaAt out 2 (0, 0) = Some 0 \<and>
     uint (toUint8Clamp (165 * (23 / 30))) = 126"
proof -
  have h: "0 < img_width tieImage" "0 < img_height tieImage"
    "length (img_data tieImage) = nat (img_width tieImage * img_height tieImage * 4)"
    by simp_all
  from feather_edge_alpha [OF h hex_white, of 30, unfolded ImageFile.select_convs]
  obtain data1 out where
    p: "pass1 2 1 white tieData = Some data1"
    and r: "removeImageBackground tieImage ''#ffffff'' 30 = Some (tieImage\<lparr>img_data := out\<rparr>)"
    and a: "\<And>p r g b a. inGrid 2 1 p \<Longrightarrow> pixelAt tieData (idx 2 p * 4) = Some (r, g, b, a) \<Longrightarrow>
           alphaAt out 2 p =
             (if (\<exists>a1. alphaAt data1 2 p = Some a1 \<and> 0 < a1) \<and>
                 (\<exists>n \<in> set (neighbours p). inGrid 2 1 n \<and> alphaAt data1 2 n = Some 0) \<and>
                 roundDouble (colorDistance r g b (rgb_r white) (rgb_g white) (rgb_b white)) < 30
              then Some (uint (toUint8Clamp (roundDouble (real_of_int a *
                     roundDouble (roundDouble (colorDistance r g b (rgb_r white) (rgb_g white)
                        (rgb_b white)) / 30)))))
              else alphaAt data1 2 p)"
    by force
  from p tie_pass1 have d: "data1 = [255, 255, 255, 0, 232, 255, 255, 165]" by simp
  have g: "inGrid 2 1 (1, 0)" "inGrid 2 1 (0, 0)" by (simp_all add: inGrid_def)
  have px: "pixelAt tieData (idx 2 (1, 0) * 4) = Some (232, 255, 255, 165)"
    "pixelAt tieData (idx 2 (0, 0) * 4) = Some (255, 255, 255, 255)"
    by (simp_all add: pixelAt_def idx_def rd_def)
  have s: "uint (toUint8Clamp (roundDouble (165 * roundDouble (roundDouble 23 / 30)))) = 127"
    unfolding stored_127 by simp
  have lt: "roundDouble 23 < 30"
    by (simp add: double_23)
  have a1: "alphaAt out 2 (1, 0) = Some 127"
    using a [OF g(1) px(1)] unfolding d
    by (simp add: alphaAt_def idx_def rd_def neighbours_def directions_def inGrid_def
        colorDistance_def sqrt_529 s lt)
  have a0: "alphaAt out 2 (0, 0) = Some 0"
    using a [OF g(2) px(2)] unfolding d
    by (simp add: alphaAt_def idx_def rd_def)
  have e: "uint (toUint8Clamp (165 * (23 / 30))) = 126"
    by (simp add: toUint8Clamp_def)
  from r a1 a0 e show ?thesis by blast
qed

end
